theory Spec2Isabelle
  imports Main "HOL-Library.Monad_Syntax" "HOL-Library.AList"
begin

section \<open>JavaScript values and syntax trees\<close>

text \<open>
  The eliminator of \<^verbatim>\<open>src/tools/eliminator.js\<close> works on the syntax trees of
  UglifyJS: nested JavaScript arrays such as \<^verbatim>\<open>['binary', '+', ['name', 'x'], ['num', 1]]\<close>.
  A tree is a JavaScript value, so the model has one type of values. Numbers are the
  integer literals (\<open>Num\<close>); other numbers are outside the model.

  Every function of the model returns an \<open>option\<close>. \<open>None\<close> says that the JavaScript
  call does not return a value: it throws a \<^verbatim>\<open>TypeError\<close> (a property of
  \<^verbatim>\<open>undefined\<close> or \<^verbatim>\<open>null\<close> is read), one of the two \<^verbatim>\<open>while\<close> loops
  runs forever, or the input leaves the modelled fragment (this is said where it happens).

  Arrays are mutated in place by the source. The model passes trees by value: a function
  that mutates a tree returns the tree as it is after the call.
\<close>

datatype node = Undef | Null | Bool bool | Num int | Str string | Arr "node list"

text \<open>Truthiness, as \<^verbatim>\<open>if (x)\<close> reads a value.\<close>

fun js_truthy :: "node \<Rightarrow> bool" where
  "js_truthy Undef = False"
| "js_truthy Null = False"
| "js_truthy (Bool b) = b"
| "js_truthy (Num n) = (n \<noteq> 0)"
| "js_truthy (Str s) = (s \<noteq> [])"
| "js_truthy (Arr xs) = True"

text \<open>
  \<^verbatim>\<open>x[i]\<close>: an index past the end reads \<^verbatim>\<open>undefined\<close>, a string is indexed by
  character, and indexing \<^verbatim>\<open>undefined\<close> or \<^verbatim>\<open>null\<close> throws.
\<close>

fun idx :: "node \<Rightarrow> nat \<Rightarrow> node option" where
  "idx (Arr xs) i = Some (if i < length xs then xs ! i else Undef)"
| "idx (Str s) i = Some (if i < length s then Str [s ! i] else Undef)"
| "idx (Num n) i = Some Undef"
| "idx (Bool b) i = Some Undef"
| "idx Undef i = None"
| "idx Null i = None"

text \<open>The decimal text of an integer, and \<^verbatim>\<open>String(x)\<close>, which is how a value that is
  used as a property key is read (\<^verbatim>\<open>['name', 'a']\<close> is the key \<^verbatim>\<open>"name,a"\<close>).\<close>

fun show_nat :: "nat \<Rightarrow> string" where
  "show_nat n =
     (if n < 10 then [char_of (48 + n)]
      else show_nat (n div 10) @ [char_of (48 + n mod 10)])"

definition show_int :: "int \<Rightarrow> string" where
  "show_int i = (if i < 0 then CHR ''-'' # show_nat (nat (- i)) else show_nat (nat i))"

fun js_toString :: "node \<Rightarrow> string"
  and js_join :: "node list \<Rightarrow> string" where
  "js_toString Undef = ''undefined''"
| "js_toString Null = ''null''"
| "js_toString (Bool b) = (if b then ''true'' else ''false'')"
| "js_toString (Num n) = show_int n"
| "js_toString (Str s) = s"
| "js_toString (Arr xs) = js_join xs"
| "js_join [] = []"
| "js_join (x # xs) =
     (if x = Undef \<or> x = Null then [] else js_toString x)
     @ (if xs = [] then [] else CHR '','' # js_join xs)"

text \<open>
  \<^verbatim>\<open>x == 'lit'\<close> for the string literals of the program (\<^verbatim>\<open>'for-in'\<close>, \<^verbatim>\<open>'var'\<close>,
  \<^verbatim>\<open>'name'\<close>, \<^verbatim>\<open>'+'\<close>, \<^verbatim>\<open>'++'\<close>, \<^verbatim>\<open>'--'\<close>, \<^verbatim>\<open>'undefined'\<close>), none of which reads
  as a number: a string is compared as it is, an array by its text, and nothing else is
  equal to the literal.
\<close>

fun eq_lit :: "node \<Rightarrow> string \<Rightarrow> bool" where
  "eq_lit (Str s) lit = (s = lit)"
| "eq_lit (Arr xs) lit = (js_join xs = lit)"
| "eq_lit v lit = False"

section \<open>The walker\<close>

text \<open>
  \<^verbatim>\<open>traverse(node, callback)\<close>, lines 91 to 110. The callback gets the node and its
  type and returns a JavaScript value; here it also returns its own state.
  \<open>traverse\<close> returns the callback's state, the node after the splices
  (\<^verbatim>\<open>node[index] = subresult\<close>) and the value returned.

  A child is visited when it is a non-empty array
  (\<^verbatim>\<open>subnode && typeof subnode == 'object' && subnode.length\<close>) and is not the
  \<^verbatim>\<open>var\<close> child of a \<^verbatim>\<open>for-in\<close> node (line 101).
\<close>

fun is_child :: "node \<Rightarrow> bool" where
  "is_child (Arr xs) = (xs \<noteq> [])"
| "is_child v = False"

fun skipped_var :: "node \<Rightarrow> node \<Rightarrow> bool" where
  "skipped_var ty (Arr (y # ys)) = (eq_lit ty ''for-in'' \<and> eq_lit y ''var'')"
| "skipped_var ty v = False"

definition visited :: "node \<Rightarrow> node \<Rightarrow> bool" where
  "visited ty x = (is_child x \<and> \<not> skipped_var ty x)"

declare visited_def [simp]

type_synonym 's callback = "'s \<Rightarrow> node \<Rightarrow> string \<Rightarrow> ('s \<times> node) option"

text \<open>
  Lines 92 to 96: the callback is called when \<^verbatim>\<open>node[0]\<close> is a string. When it is
  not, nothing is returned at this point, which is written here as the value
  \<^verbatim>\<open>undefined\<close>.
\<close>

definition observe :: "'s callback \<Rightarrow> 's \<Rightarrow> node \<Rightarrow> ('s \<times> node) option" where
  "observe cb s node =
     (case idx node 0 of
        None \<Rightarrow> None
      | Some (Str t) \<Rightarrow> cb s node t
      | Some v \<Rightarrow> Some (s, Undef))"

fun traverse :: "'s callback \<Rightarrow> 's \<Rightarrow> node \<Rightarrow> ('s \<times> node \<times> node) option"
  and traverse_children ::
    "'s callback \<Rightarrow> node \<Rightarrow> 's \<Rightarrow> node list \<Rightarrow> ('s \<times> node list \<times> node) option" where
  "traverse cb s (Arr xs) =
     (case observe cb s (Arr xs) of
        None \<Rightarrow> None
      | Some (s1, result) \<Rightarrow>
          if js_truthy result then Some (s1, Arr xs, result)
          else (case traverse_children cb (case xs of [] \<Rightarrow> Undef | x # ys \<Rightarrow> x) s1 xs of
                  None \<Rightarrow> None
                | Some (s2, zs, r) \<Rightarrow> Some (s2, Arr zs, r)))"
| "traverse cb s (Str str) =
     (case observe cb s (Str str) of
        None \<Rightarrow> None
      | Some (s1, result) \<Rightarrow>
          Some (s1, Str str, if js_truthy result then result else Undef))"
| "traverse cb s (Num n) = Some (s, Num n, Undef)"
| "traverse cb s (Bool b) = Some (s, Bool b, Undef)"
| "traverse cb s Undef = None"
| "traverse cb s Null = None"
| "traverse_children cb ty s [] = Some (s, [], Undef)"
| "traverse_children cb ty s (x # xs) =
     (if visited ty x then
        (case traverse cb s x of
           None \<Rightarrow> None
         | Some (s1, x1, subresult) \<Rightarrow>
             if subresult = Bool False then Some (s1, x1 # xs, Bool False)
             else (case traverse_children cb ty s1 xs of
                     None \<Rightarrow> None
                   | Some (s2, zs, r) \<Rightarrow>
                       Some (s2, (if js_truthy subresult then subresult else x1) # zs, r)))
      else (case traverse_children cb ty s xs of
              None \<Rightarrow> None
            | Some (s2, zs, r) \<Rightarrow> Some (s2, x # zs, r)))"

subsection \<open>Facts about the walker\<close>

lemma observe_Arr_Str [simp]:
  "observe cb s (Arr (Str t # rest)) = cb s (Arr (Str t # rest)) t"
  by (simp add: observe_def)

text \<open>Induction along the calls of one walk, the callback fixed.\<close>

lemma traverse_induct [case_names Arr Other Nil Cons]:
  assumes "\<And>s xs. (\<And>s1 res. observe cb s (Arr xs) = Some (s1, res) \<Longrightarrow> \<not> js_truthy res \<Longrightarrow>
              Q (case xs of [] \<Rightarrow> Undef | x # ys \<Rightarrow> x) s1 xs) \<Longrightarrow> P s (Arr xs)"
    and "\<And>s v. (\<And>xs. v \<noteq> Arr xs) \<Longrightarrow> P s v"
    and "\<And>ty s. Q ty s []"
    and "\<And>ty s x xs.
           (visited ty x \<Longrightarrow> P s x) \<Longrightarrow>
           (\<And>s1 x1 sub. visited ty x \<Longrightarrow>
              traverse cb s x = Some (s1, x1, sub) \<Longrightarrow> sub \<noteq> Bool False \<Longrightarrow> Q ty s1 xs) \<Longrightarrow>
           (\<not> visited ty x \<Longrightarrow> Q ty s xs) \<Longrightarrow>
           Q ty s (x # xs)"
  shows "P s n" and "Q ty s xs"
proof -
  have a: "(cb' = cb \<longrightarrow> P s n)" and b: "(cb' = cb \<longrightarrow> Q ty s xs)" for cb'
  proof (induction cb' s n and cb' ty s xs rule: traverse_traverse_children.induct)
    case (1 cb' s xs)
    show ?case
    proof
      assume e: "cb' = cb"
      show "P s (Arr xs)"
      proof (rule assms(1))
        fix s1 res
        assume "observe cb s (Arr xs) = Some (s1, res)" "\<not> js_truthy res"
        then show "Q (case xs of [] \<Rightarrow> Undef | x # ys \<Rightarrow> x) s1 xs"
          using 1[of "(s1, res)" s1 res] e by simp
      qed
    qed
  next
    case (8 cb' ty s x xs)
    show ?case
    proof
      assume e: "cb' = cb"
      show "Q ty s (x # xs)"
      proof (rule assms(4))
        assume "visited ty x"
        then show "P s x" using 8(1) e by simp
      next
        fix s1 x1 sub
        assume "visited ty x" "traverse cb s x = Some (s1, x1, sub)"
          "sub \<noteq> Bool False"
        then show "Q ty s1 xs"
          using 8(2)[of "(s1, x1, sub)" s1 "(x1, sub)" x1 sub] e by simp
      next
        assume "\<not> visited ty x"
        then show "Q ty s xs" using 8(3) e by simp
      qed
    qed
  qed (auto intro: assms)
  from a[of cb] b[of cb] show "P s n" and "Q ty s xs" by simp_all
qed


lemma traverse_never_false:
  "traverse cb s n = Some (s', n', r) \<Longrightarrow> r \<noteq> Bool False"
  "traverse_children cb ty s xs = Some (s', xs', r) \<Longrightarrow> r \<noteq> Bool False"
proof (induction s n and ty s xs arbitrary: s' n' r and s' xs' r rule: traverse_induct[where cb=cb])
  case (Arr s xs)
  from Arr.prems obtain s1 res where o: "observe cb s (Arr xs) = Some (s1, res)"
    by (auto split: option.splits)
  show ?case
  proof (cases "js_truthy res")
    case True
    with Arr.prems o show ?thesis by auto
  next
    case False
    with Arr.prems o obtain zs where
      "traverse_children cb (case xs of [] \<Rightarrow> Undef | x # ys \<Rightarrow> x) s1 xs = Some (s', zs, r)"
      by (auto split: option.splits)
    then show ?thesis using Arr.IH[OF o False] by simp
  qed
next
  case (Other s v)
  then show ?case by (cases v) (auto split: option.splits if_splits)
next
  case (Nil ty s)
  then show ?case by simp
next
  case (Cons ty s x xs)
  show ?case
  proof (cases "visited ty x")
    case True
    with Cons.prems obtain s1 x1 sub where t: "traverse cb s x = Some (s1, x1, sub)"
      by (auto split: option.splits)
    have nf: "sub \<noteq> Bool False" using Cons.IH(1)[OF True t] .
    from Cons.prems True t nf obtain zs where
      "traverse_children cb ty s1 xs = Some (s', zs, r)"
      by (auto split: option.splits)
    then show ?thesis using Cons.IH(2)[OF True t nf] by simp
  next
    case False
    with Cons.prems obtain zs where "traverse_children cb ty s xs = Some (s', zs, r)"
      by (auto split: option.splits)
    then show ?thesis using Cons.IH(3)[OF False] by simp
  qed
qed

text \<open>The loop over the children of a node, one part of the list after the other.\<close>

lemma traverse_children_append:
  "traverse_children cb ty s (pre @ rest) =
     (case traverse_children cb ty s pre of
        None \<Rightarrow> None
      | Some (s1, pre', r) \<Rightarrow>
          (case traverse_children cb ty s1 rest of
             None \<Rightarrow> None
           | Some (s2, rest', r') \<Rightarrow> Some (s2, pre' @ rest', r')))"
proof (induction pre arbitrary: s)
  case Nil
  show ?case by (auto split: option.splits)
next
  case (Cons x pre)
  show ?case
  proof (cases "visited ty x")
    case True
    show ?thesis
    proof (cases "traverse cb s x")
      case None
      then show ?thesis using True by (simp del: visited_def)
    next
      case (Some p)
      obtain s1 x1 sub where p: "p = (s1, x1, sub)" by (cases p)
      have nf: "sub \<noteq> Bool False" using traverse_never_false(1)[of cb s x s1 x1 sub] Some p by simp
      show ?thesis using True Some p nf Cons.IH[of s1]
        by (auto simp del: visited_def split: option.splits)
    qed
  next
    case False
    then show ?thesis using Cons.IH[of s]
      by (auto simp del: visited_def split: option.splits)
  qed
qed

section \<open>The expression optimizer\<close>

text \<open>
  \<^verbatim>\<open>ExpressionOptimizer\<close>, lines 436 to 474. The inner callback gathers the operands of
  a chain of additions in four variables of the enclosing function; they are the state of
  the inner walk.
\<close>

record gathered =
  names :: "node list"
  num :: int
  has_num :: bool
  fail :: bool

text \<open>
  A JavaScript number is a double. The doubles hold every integer from
  \<^verbatim>\<open>-9007199254740992\<close> to \<^verbatim>\<open>9007199254740992\<close> (2 to the power 53) exactly, so
  the sum of two such integers is the sum of the doubles when it lies in this range too;
  \<open>js_add\<close> is this sum, and nothing otherwise (the double may be rounded, or the value
  added is not an integer).
\<close>

definition safe_int :: "int \<Rightarrow> bool" where
  "safe_int k \<longleftrightarrow> - 9007199254740992 \<le> k \<and> k \<le> 9007199254740992"

fun js_add :: "int \<Rightarrow> node \<Rightarrow> int option" where
  "js_add a (Num k) = (if safe_int a \<and> safe_int k \<and> safe_int (a + k) then Some (a + k) else None)"
| "js_add a v = None"

text \<open>
  The inner callback, lines 446 to 463. At a \<^verbatim>\<open>num\<close> entry whose sum \<open>js_add\<close> does not
  give, the call is outside the model when \<open>fail\<close> is not set. When \<open>fail\<close> is set,
  line 464 does not read \<^verbatim>\<open>num\<close> again, and the model leaves \<open>num\<close> as it is from
  there on.
\<close>

definition gather_callback :: "gathered callback" where
  "gather_callback g subNode subType =
     (case idx subNode 1 of
        None \<Rightarrow> None
      | Some payload \<Rightarrow>
          if subType = ''binary'' then
            (if \<not> eq_lit payload ''+'' then Some (g\<lparr>fail := True\<rparr>, Bool False)
             else Some (g, Undef))
          else if subType = ''name'' then Some (g\<lparr>names := names g @ [payload]\<rparr>, Undef)
          else if subType = ''num'' then
            (case js_add (num g) payload of
               Some k \<Rightarrow> Some (g\<lparr>num := k, has_num := True\<rparr>, Undef)
             | None \<Rightarrow> if fail g then Some (g\<lparr>has_num := True\<rparr>, Undef) else None)
          else Some (g\<lparr>fail := True\<rparr>, Bool False))"

text \<open>The loop of lines 465 to 468.\<close>

definition rebuild :: "int \<Rightarrow> node list \<Rightarrow> node" where
  "rebuild k nms =
     foldl (\<lambda>ret nm. Arr [Str ''binary'', Str ''+'', Arr [Str ''name'', nm], ret])
       (Arr [Str ''num'', Num k]) nms"

definition fold_callback :: "unit callback" where
  "fold_callback u node type =
     (case idx node 1 of
        None \<Rightarrow> None
      | Some op \<Rightarrow>
          if type = ''binary'' \<and> eq_lit op ''+'' then
            (case traverse gather_callback
                    \<lparr>names = [], num = 0, has_num = False, fail = False\<rparr> node of
               None \<Rightarrow> None
             | Some (g, node1, r) \<Rightarrow>
                 if \<not> fail g \<and> has_num g then Some (u, rebuild (num g) (names g))
                 else Some (u, Undef))
          else Some (u, Undef))"

text \<open>\<^verbatim>\<open>run\<close> drops what the walk returns: the tree is the one mutated in place.\<close>

definition ExpressionOptimizer_run :: "node \<Rightarrow> node option" where
  "ExpressionOptimizer_run node =
     (case traverse fold_callback () node of
        None \<Rightarrow> None
      | Some (u, node1, r) \<Rightarrow> Some node1)"

text \<open>
  \<^bold>\<open>Claim C8\<close> (the stop signal). The comment above \<^verbatim>\<open>traverse\<close> says that the walk
  stops, and returns \<^verbatim>\<open>false\<close>, when the callback returns \<^verbatim>\<open>false\<close>. Line 95 tests
  \<^verbatim>\<open>if (result)\<close>, which \<^verbatim>\<open>false\<close> does not pass, so the walk goes on into the
  children, and by \<open>traverse_never_false\<close> no walk returns \<^verbatim>\<open>false\<close>. The theorem
  runs the inner callback of the expression optimizer on \<^verbatim>\<open>1 * 2 + 3\<close>: the callback
  returns \<^verbatim>\<open>false\<close> at the product (\<open>fail\<close> is set), and the walk still visits the
  literals 1 and 2 under it and the literal 3 after it (their sum is 6) and returns
  \<^verbatim>\<open>undefined\<close>.
\<close>

theorem traverse_ignores_stop:
  "traverse gather_callback \<lparr>names = [], num = 0, has_num = False, fail = False\<rparr>
     (Arr [Str ''binary'', Str ''+'',
           Arr [Str ''binary'', Str ''*'', Arr [Str ''num'', Num 1], Arr [Str ''num'', Num 2]],
           Arr [Str ''num'', Num 3]])
   = Some (\<lparr>names = [], num = 6, has_num = True, fail = True\<rparr>,
           Arr [Str ''binary'', Str ''+'',
                Arr [Str ''binary'', Str ''*'', Arr [Str ''num'', Num 1], Arr [Str ''num'', Num 2]],
                Arr [Str ''num'', Num 3]],
           Undef)"
  by (simp add: gather_callback_def safe_int_def)

subsection \<open>Chains of additions\<close>

text \<open>
  The chain of a node as section 4.7 of the specification describes it: the integer
  literals and the names that are the leaves under the \<^verbatim>\<open>+\<close> nodes, each in the order
  of the walk. \<open>None\<close> when a leaf is of another kind or an operator is not \<^verbatim>\<open>+\<close>.
\<close>

fun chain :: "node \<Rightarrow> (int list \<times> node list) option" where
  "chain (Arr [Str t, a]) =
     (if t = ''name'' then (case a of Str x \<Rightarrow> Some ([], [Str x]) | v \<Rightarrow> None)
      else if t = ''num'' then (case a of Num k \<Rightarrow> Some ([k], []) | v \<Rightarrow> None)
      else None)"
| "chain (Arr [Str t, op, l, r]) =
     (if t = ''binary'' \<and> op = Str ''+'' then
        (case chain l of
           None \<Rightarrow> None
         | Some (k1, n1) \<Rightarrow>
             (case chain r of None \<Rightarrow> None | Some (k2, n2) \<Rightarrow> Some (k1 @ k2, n1 @ n2)))
      else None)"
| "chain v = None"

text \<open>
  The sums of line 456 are exact: \<open>exact_sums a ks\<close> when \<^verbatim>\<open>num\<close> is \<open>a\<close> and the
  literals \<open>ks\<close> are added to it one after the other.
\<close>

fun exact_sums :: "int \<Rightarrow> int list \<Rightarrow> bool" where
  "exact_sums a [] = True"
| "exact_sums a (k # ks) =
     (safe_int a \<and> safe_int k \<and> safe_int (a + k) \<and> exact_sums (a + k) ks)"

definition gathers :: "gathered \<Rightarrow> int list \<Rightarrow> node list \<Rightarrow> gathered" where
  "gathers g ks nms =
     g\<lparr>names := names g @ nms, num := num g + sum_list ks, has_num := (has_num g \<or> ks \<noteq> [])\<rparr>"

lemma exact_sums_append:
  "exact_sums a (k1 @ k2) = (exact_sums a k1 \<and> exact_sums (a + sum_list k1) k2)"
  by (induction k1 arbitrary: a) (auto simp: algebra_simps)

lemma chain_is_child: "chain n = Some p \<Longrightarrow> is_child n"
  by (cases n rule: chain.cases) auto

lemma chain_not_skipped: "\<not> skipped_var (Str ''binary'') x"
  by (cases "(Str ''binary'', x)" rule: skipped_var.cases) auto

lemma gather_binary_plus:
  "gather_callback g (Arr (Str ''binary'' # Str ''+'' # rest)) ''binary'' = Some (g, Undef)"
  by (simp add: gather_callback_def)

lemma gather_name:
  "gather_callback g (Arr [Str ''name'', a]) ''name'' = Some (g\<lparr>names := names g @ [a]\<rparr>, Undef)"
  by (simp add: gather_callback_def)

lemma gather_num:
  "exact_sums (num g) [k] \<Longrightarrow>
   gather_callback g (Arr [Str ''num'', Num k]) ''num'' =
     Some (g\<lparr>num := num g + k, has_num := True\<rparr>, Undef)"
  by (simp add: gather_callback_def)

lemma gather_chain:
  "chain n = Some (ks, nms) \<Longrightarrow> exact_sums (num g) ks \<Longrightarrow>
   traverse gather_callback g n = Some (gathers g ks nms, n, Undef)"
proof (induction n arbitrary: ks nms g rule: chain.induct)
  case (1 t a)
  then show ?case
    by (auto simp: gather_name gather_num gathers_def split: if_splits node.splits)
next
  case (2 t op l r)
  from "2.prems" obtain k1 n1 k2 n2 where
    t: "t = ''binary''" and op: "op = Str ''+''" and
    l: "chain l = Some (k1, n1)" and r: "chain r = Some (k2, n2)" and
    ks: "ks = k1 @ k2" and nms: "nms = n1 @ n2"
    by (auto split: if_splits option.splits)
  have e1: "exact_sums (num g) k1" and e2: "exact_sums (num (gathers g k1 n1)) k2"
    using "2.prems"(2) by (auto simp: ks exact_sums_append gathers_def)
  have L: "traverse gather_callback g l = Some (gathers g k1 n1, l, Undef)"
    using "2.IH"(1)[OF _ l e1] t op by simp
  have R: "traverse gather_callback (gathers g k1 n1) r =
             Some (gathers (gathers g k1 n1) k2 n2, r, Undef)"
    using "2.IH"(2)[OF _ l _ r e2] t op by simp
  have g: "gathers (gathers g k1 n1) k2 n2 = gathers g ks nms"
    by (auto simp: gathers_def ks nms)
  show ?case
    using chain_is_child[OF l] chain_is_child[OF r]
    by (simp add: t op gather_binary_plus L R g chain_not_skipped)
qed (auto)


text \<open>Once \<open>fail\<close> is set the inner walk returns, whatever the tree holds.\<close>

lemma observe_after_fail:
  assumes "fail g" and "idx n 0 \<noteq> None"
  shows "\<exists>g' r. observe gather_callback g n = Some (g', r) \<and> fail g' \<and> \<not> js_truthy r"
proof -
  have "idx n 1 \<noteq> None" using assms(2) by (cases n) auto
  then show ?thesis using assms
    by (auto simp: observe_def gather_callback_def split: option.splits node.splits)
qed

lemma gather_after_fail:
  "fail g \<Longrightarrow> n \<noteq> Undef \<Longrightarrow> n \<noteq> Null \<Longrightarrow>
     \<exists>g' n' r. traverse gather_callback g n = Some (g', n', r) \<and> fail g'"
  "fail g \<Longrightarrow> \<exists>g' zs r. traverse_children gather_callback ty g xs = Some (g', zs, r) \<and> fail g'"
proof (induction g n and ty g xs rule: traverse_induct[where cb=gather_callback])
  case (Arr g xs)
  from observe_after_fail[OF Arr.prems(1), of "Arr xs"] obtain g1 r1 where
    o: "observe gather_callback g (Arr xs) = Some (g1, r1)" and f: "fail g1" and nt: "\<not> js_truthy r1"
    by auto
  from Arr.IH[OF o nt f] obtain g' zs r where
    "traverse_children gather_callback (case xs of [] \<Rightarrow> Undef | x # ys \<Rightarrow> x) g1 xs = Some (g', zs, r)"
    "fail g'" by blast
  then show ?case using o nt by simp
next
  case (Other g v)
  have nv: "\<forall>xs. v \<noteq> Arr xs" using Other.hyps by blast
  show ?case
  proof (cases v)
    case (Str s)
    from observe_after_fail[OF Other.prems(1), of "Str s"] obtain g1 r1 where
      "observe gather_callback g (Str s) = Some (g1, r1)" "fail g1" by auto
    then show ?thesis using Str by simp
  qed (use Other.prems nv in auto)
next
  case (Nil ty g)
  then show ?case by simp
next
  case (Cons ty g x xs)
  show ?case
  proof (cases "visited ty x")
    case True
    then have "x \<noteq> Undef" "x \<noteq> Null" by auto
    from Cons.IH(1)[OF True Cons.prems this] obtain g1 x1 sub where
      t: "traverse gather_callback g x = Some (g1, x1, sub)" and f: "fail g1" by blast
    have nf: "sub \<noteq> Bool False" using traverse_never_false(1)[OF t] .
    from Cons.IH(2)[OF True t nf f] obtain g' zs r where
      "traverse_children gather_callback ty g1 xs = Some (g', zs, r)" "fail g'" by blast
    then show ?thesis using True t nf by (simp del: visited_def)
  next
    case False
    from Cons.IH(3)[OF False Cons.prems] obtain g' zs r where
      "traverse_children gather_callback ty g xs = Some (g', zs, r)" "fail g'" by blast
    then show ?thesis using False by (simp del: visited_def)
  qed
qed

text \<open>
  A chain that fails. \<open>leading n\<close> follows the walk through the \<^verbatim>\<open>+\<close> nodes of \<open>n\<close>
  up to the first node at which the callback sets \<open>fail\<close>: a node that is neither a
  \<^verbatim>\<open>num\<close>, a \<^verbatim>\<open>name\<close> nor a \<^verbatim>\<open>binary\<close>, or a \<^verbatim>\<open>binary\<close> with another
  operator. It gives the literals met before that node, and whether there is such a node;
  what comes after that node is not looked at. \<open>verdict\<close> is the case of a node that is
  not a \<^verbatim>\<open>+\<close> node with two operands.
\<close>

definition verdict :: "string \<Rightarrow> node list \<Rightarrow> (int list \<times> bool) option" where
  "verdict t rest =
     (if t = ''binary'' then
        (case rest of
           [] \<Rightarrow> Some ([], True)
         | op # others \<Rightarrow> if eq_lit op ''+'' then None else Some ([], True))
      else if t = ''name'' then (case rest of [Str x] \<Rightarrow> Some ([], False) | ys \<Rightarrow> None)
      else if t = ''num'' then (case rest of [Num k] \<Rightarrow> Some ([k], False) | ys \<Rightarrow> None)
      else Some ([], True))"

fun leading :: "node \<Rightarrow> (int list \<times> bool) option" where
  "leading (Arr [Str t, op, l, r]) =
     (if t = ''binary'' \<and> op = Str ''+'' then
        (case leading l of
           None \<Rightarrow> None
         | Some (k1, f1) \<Rightarrow>
             if f1 then Some (k1, True)
             else (case leading r of None \<Rightarrow> None | Some (k2, f2) \<Rightarrow> Some (k1 @ k2, f2)))
      else verdict t [op, l, r])"
| "leading (Arr (Str t # rest)) = verdict t rest"
| "leading v = None"

lemma gather_verdict:
  assumes "verdict t rest = Some (ks, f)" and "\<not> fail g" and "exact_sums (num g) ks"
  shows "\<exists>g' n' r. traverse gather_callback g (Arr (Str t # rest)) = Some (g', n', r)
           \<and> fail g' = f \<and> (\<not> f \<longrightarrow> num g' = num g + sum_list ks)"
proof -
  have stop: ?thesis
    if c: "gather_callback g (Arr (Str t # rest)) t = Some (g\<lparr>fail := True\<rparr>, Bool False)"
      and f: "f"
  proof -
    from gather_after_fail(2)[of "g\<lparr>fail := True\<rparr>" "Str t" "Str t # rest"] obtain g' zs r where
      "traverse_children gather_callback (Str t) (g\<lparr>fail := True\<rparr>) (Str t # rest) = Some (g', zs, r)"
      "fail g'" by auto
    then show ?thesis using c f by simp
  qed
  consider (bin) "t = ''binary''" | (name) "t = ''name''" | (num) "t = ''num''"
    | (other) "t \<noteq> ''binary''" "t \<noteq> ''name''" "t \<noteq> ''num''" by blast
  then show ?thesis
  proof cases
    case bin
    with assms(1) have f: "f" and p: "rest = [] \<or> (\<exists>op others. rest = op # others \<and> \<not> eq_lit op ''+'')"
      by (auto simp: verdict_def split: list.splits if_splits)
    have "gather_callback g (Arr (Str t # rest)) t = Some (g\<lparr>fail := True\<rparr>, Bool False)"
      using p bin by (auto simp: gather_callback_def)
    then show ?thesis using stop f by blast
  next
    case name
    with assms(1) obtain x where "rest = [Str x]" "ks = []" "\<not> f"
      by (auto simp: verdict_def split: list.splits node.splits)
    then show ?thesis using name assms(2) by (simp add: gather_callback_def)
  next
    case num
    with assms(1) obtain k where "rest = [Num k]" "ks = [k]" "\<not> f"
      by (auto simp: verdict_def split: list.splits node.splits)
    then show ?thesis using num assms(2,3) by (simp add: gather_callback_def)
  next
    case other
    with assms(1) have f: "f" by (auto simp: verdict_def)
    have "gather_callback g (Arr (Str t # rest)) t = Some (g\<lparr>fail := True\<rparr>, Bool False)"
      using other by (auto simp: gather_callback_def)
    then show ?thesis using stop f by blast
  qed
qed

lemma leading_is_child: "leading n = Some p \<Longrightarrow> is_child n"
  by (cases n rule: leading.cases) auto

lemma gather_leading:
  "leading n = Some (ks, f) \<Longrightarrow> \<not> fail g \<Longrightarrow> exact_sums (num g) ks \<Longrightarrow>
     \<exists>g' n' r. traverse gather_callback g n = Some (g', n', r)
        \<and> fail g' = f \<and> (\<not> f \<longrightarrow> num g' = num g + sum_list ks)"
proof (induction n arbitrary: ks f g rule: leading.induct)
  case (1 t op l r)
  show ?case
  proof (cases "t = ''binary'' \<and> op = Str ''+''")
    case False
    then have "verdict t [op, l, r] = Some (ks, f)" using "1.prems"(1) by auto
    from gather_verdict[OF this "1.prems"(2,3)] show ?thesis .
  next
    case True
    then have t: "t = ''binary''" and op: "op = Str ''+''" by auto
    from "1.prems"(1) True obtain k1 f1 where l: "leading l = Some (k1, f1)"
      by (auto split: option.splits)
    have cl: "is_child l" using leading_is_child[OF l] .
    show ?thesis
    proof (cases f1)
      case f1: True
      then have ks: "ks = k1" and f: "f" using "1.prems"(1) True l by auto
      from "1.IH"(1)[OF True l "1.prems"(2)] "1.prems"(3) ks f1 obtain g1 l1 r1 where
        tl: "traverse gather_callback g l = Some (g1, l1, r1)" and fg: "fail g1" by auto
      have nf: "r1 \<noteq> Bool False" using traverse_never_false(1)[OF tl] .
      show ?thesis
      proof (cases "is_child r")
        case cr: True
        then have "r \<noteq> Undef" "r \<noteq> Null" by auto
        from gather_after_fail(1)[OF fg this] obtain g' r' r'' where
          tr: "traverse gather_callback g1 r = Some (g', r', r'')" and fg': "fail g'" by blast
        have nf2: "r'' \<noteq> Bool False" using traverse_never_false(1)[OF tr] .
        have "\<exists>n' r''. traverse gather_callback g (Arr [Str t, op, l, r]) = Some (g', n', r'')"
          using tl nf tr nf2 cl cr by (simp add: t op gather_binary_plus chain_not_skipped)
        then show ?thesis using fg' f by auto
      next
        case cr: False
        have "\<exists>n' r''. traverse gather_callback g (Arr [Str t, op, l, r]) = Some (g1, n', r'')"
          using tl nf cl cr by (simp add: t op gather_binary_plus chain_not_skipped)
        then show ?thesis using fg f by auto
      qed
    next
      case f1: False
      from "1.prems"(1) True l f1 obtain k2 where r: "leading r = Some (k2, f)" and ks: "ks = k1 @ k2"
        by (auto split: option.splits)
      have e1: "exact_sums (num g) k1" using "1.prems"(3) by (simp add: ks exact_sums_append)
      from "1.IH"(1)[OF True l "1.prems"(2) e1] f1 obtain g1 l1 r1 where
        tl: "traverse gather_callback g l = Some (g1, l1, r1)" and fg: "\<not> fail g1"
        and n1: "num g1 = num g + sum_list k1" by auto
      have nf: "r1 \<noteq> Bool False" using traverse_never_false(1)[OF tl] .
      have e2: "exact_sums (num g1) k2" using "1.prems"(3) n1 by (simp add: ks exact_sums_append)
      from "1.IH"(2)[OF True l refl f1 r fg e2] obtain g2 l2 r2 where
        tr: "traverse gather_callback g1 r = Some (g2, l2, r2)" and fg2: "fail g2 = f"
        and n2: "\<not> f \<longrightarrow> num g2 = num g1 + sum_list k2" by auto
      have nf2: "r2 \<noteq> Bool False" using traverse_never_false(1)[OF tr] .
      have cr: "is_child r" using leading_is_child[OF r] .
      have "\<exists>n' r''. traverse gather_callback g (Arr [Str t, op, l, r]) = Some (g2, n', r'')"
        using tl nf tr nf2 cl cr
        by (simp add: t op gather_binary_plus chain_not_skipped)
      then show ?thesis using fg2 n2 n1 ks by auto
    qed
  qed
qed (auto dest: gather_verdict)


lemma fold_callback_chain:
  assumes "chain (Arr [Str ''binary'', Str ''+'', l, r]) = Some (ks, nms)" and "exact_sums 0 ks"
  shows "fold_callback () (Arr [Str ''binary'', Str ''+'', l, r]) ''binary'' =
           Some ((), if ks \<noteq> [] then rebuild (sum_list ks) nms else Undef)"
  using gather_chain[OF assms(1), of "\<lparr>names = [], num = 0, has_num = False, fail = False\<rparr>"]
    assms(2)
  by (simp add: fold_callback_def gathers_def)

lemma fold_callback_other:
  "t \<noteq> ''binary'' \<Longrightarrow> fold_callback () (Arr (Str t # rest)) t = Some ((), Undef)"
  by (simp add: fold_callback_def)

lemma rebuild_truthy: "js_truthy (rebuild k nms)"
  unfolding rebuild_def by (induction nms rule: rev_induct) auto

lemma truthy_not_false: "js_truthy x \<Longrightarrow> x \<noteq> Bool False"
  by auto

lemma walk_chain_literal:
  assumes "chain (Arr [Str ''binary'', Str ''+'', l, r]) = Some (ks, nms)" and "ks \<noteq> []"
    and "exact_sums 0 ks"
  shows "traverse fold_callback () (Arr [Str ''binary'', Str ''+'', l, r]) =
           Some ((), Arr [Str ''binary'', Str ''+'', l, r], rebuild (sum_list ks) nms)"
  using fold_callback_chain[OF assms(1,3)] assms(2) rebuild_truthy[of "sum_list ks" nms]
  by simp

lemma binary_visited: "visited ty (Arr (Str ''binary'' # rest))"
  by (cases "(ty, Arr (Str ''binary'' # rest))" rule: skipped_var.cases) auto

lemma slot_chain_literal:
  assumes "chain (Arr [Str ''binary'', Str ''+'', l, r]) = Some (ks, nms)" and "ks \<noteq> []"
    and "exact_sums 0 ks"
  shows "traverse_children fold_callback ty () (pre @ Arr [Str ''binary'', Str ''+'', l, r] # post) =
           (case traverse_children fold_callback ty () pre of
              None \<Rightarrow> None
            | Some (u1, pre1, r1) \<Rightarrow>
                (case traverse_children fold_callback ty () post of
                   None \<Rightarrow> None
                 | Some (u2, post1, r2) \<Rightarrow>
                     Some ((), pre1 @ rebuild (sum_list ks) nms # post1, r2)))"
proof -
  let ?n = "Arr [Str ''binary'', Str ''+'', l, r]"
  have "traverse_children fold_callback ty () (?n # post) =
          (case traverse_children fold_callback ty () post of
             None \<Rightarrow> None
           | Some (u2, post1, r2) \<Rightarrow> Some ((), rebuild (sum_list ks) nms # post1, r2))"
    using walk_chain_literal[OF assms] binary_visited[of ty "[Str ''+'', l, r]"]
      rebuild_truthy[of "sum_list ks" nms] truthy_not_false[OF rebuild_truthy[of "sum_list ks" nms]]
    by (simp del: visited_def traverse.simps split: option.splits)
  then show ?thesis
    by (simp add: traverse_children_append[of fold_callback ty "()" pre] split: option.splits)
qed

lemma run_chain_literal:
  assumes "chain (Arr [Str ''binary'', Str ''+'', l, r]) = Some (ks, nms)" and "ks \<noteq> []"
    and "exact_sums 0 ks"
  shows "ExpressionOptimizer_run (Arr [Str ''binary'', Str ''+'', l, r]) =
           Some (Arr [Str ''binary'', Str ''+'', l, r])"
  using walk_chain_literal[OF assms] by (simp add: ExpressionOptimizer_run_def del: traverse.simps)

lemma fold_no_literal:
  "chain n = Some ([], nms) \<Longrightarrow> traverse fold_callback () n = Some ((), n, Undef)"
proof (induction n arbitrary: nms rule: chain.induct)
  case (1 t a)
  then show ?case
    by (auto simp: fold_callback_other split: if_splits node.splits)
next
  case (2 t op l r)
  from "2.prems" obtain n1 n2 where
    t: "t = ''binary''" and op: "op = Str ''+''" and
    l: "chain l = Some ([], n1)" and r: "chain r = Some ([], n2)"
    by (auto split: if_splits option.splits)
  have L: "traverse fold_callback () l = Some ((), l, Undef)"
    using "2.IH"(1)[OF _ l] t op by simp
  have R: "traverse fold_callback () r = Some ((), r, Undef)"
    using "2.IH"(2)[OF _ l _ r] t op by simp
  have c: "fold_callback () (Arr [Str ''binary'', Str ''+'', l, r]) ''binary'' = Some ((), Undef)"
    using fold_callback_chain[of l r "[]" nms] "2.prems" t op by simp
  show ?case
    using chain_is_child[OF l] chain_is_child[OF r]
    by (simp add: t op c L R chain_not_skipped)
qed auto

lemma fold_callback_fails:
  assumes "leading (Arr [Str ''binary'', Str ''+'', a, b]) = Some (ks, True)" and "exact_sums 0 ks"
  shows "fold_callback () (Arr [Str ''binary'', Str ''+'', a, b]) ''binary'' = Some ((), Undef)"
proof -
  from gather_leading[OF assms(1), of "\<lparr>names = [], num = 0, has_num = False, fail = False\<rparr>"]
    assms(2)
  obtain g' n' r where
    "traverse gather_callback \<lparr>names = [], num = 0, has_num = False, fail = False\<rparr>
       (Arr [Str ''binary'', Str ''+'', a, b]) = Some (g', n', r)" "fail g'"
    by auto
  then show ?thesis by (simp add: fold_callback_def del: traverse.simps)
qed

text \<open>
  The tree the claim describes, \<^verbatim>\<open>((num) + name0) + name1 ...\<close>: the constant innermost
  and every name the right operand. This definition follows the claim's words and is only
  compared with \<open>rebuild\<close>, the loop of the source.
\<close>

definition claimed_chain :: "int \<Rightarrow> node list \<Rightarrow> node" where
  "claimed_chain k nms =
     foldl (\<lambda>acc nm. Arr [Str ''binary'', Str ''+'', acc, Arr [Str ''name'', nm]])
       (Arr [Str ''num'', Num k]) nms"

lemma rebuild_Nil: "rebuild k [] = Arr [Str ''num'', Num k]"
  by (simp add: rebuild_def)

lemma rebuild_snoc:
  "rebuild k (nms @ [nm]) = Arr [Str ''binary'', Str ''+'', Arr [Str ''name'', nm], rebuild k nms]"
  by (simp add: rebuild_def)

text \<open>
  \<^bold>\<open>Claim C9\<close>, as amended. Let \<open>n\<close> be a \<^verbatim>\<open>binary '+'\<close> node with two operands.

  If its chain has only \<^verbatim>\<open>num\<close> and \<^verbatim>\<open>name\<close> leaves, with the literals \<open>ks\<close> and the
  names \<open>nms\<close>, there is a literal, and the sums of the literals are exact, then the walk
  called on \<open>n\<close> returns \<open>rebuild (sum_list ks) nms\<close> as the tree to put in its place:
  the constant is innermost, and each name is the \<^emph>\<open>left\<close> operand of its \<^verbatim>\<open>+\<close>, the
  first name innermost (\<^verbatim>\<open>name1 + (name0 + num)\<close>). The loop of lines 97 to 109 over
  the slots of any node, with \<open>n\<close> in any slot, leaves the rebuilt tree in that slot and
  goes on with the slots after it. When \<open>n\<close> is the root given to \<^verbatim>\<open>run\<close>, the tree is
  as before, since \<^verbatim>\<open>run\<close> drops the value the walk returns.

  With no literal the walk leaves \<open>n\<close> as it is and returns nothing.

  When the walk through the chain of \<open>n\<close> meets, after \<^verbatim>\<open>num\<close> and \<^verbatim>\<open>name\<close>
  leaves whose literals have exact sums, a node that is not a \<^verbatim>\<open>num\<close>, a \<^verbatim>\<open>name\<close>
  or a \<^verbatim>\<open>+\<close>, the callback returns \<^verbatim>\<open>undefined\<close> at \<open>n\<close>, so \<open>n\<close> itself is
  not replaced.
\<close>

theorem fold_additions_chain:
  "(chain (Arr [Str ''binary'', Str ''+'', l, r]) = Some (ks, nms) \<and> ks \<noteq> [] \<and> exact_sums 0 ks \<longrightarrow>
      traverse fold_callback () (Arr [Str ''binary'', Str ''+'', l, r]) =
        Some ((), Arr [Str ''binary'', Str ''+'', l, r], rebuild (sum_list ks) nms)
      \<and> traverse_children fold_callback ty ()
          (pre @ Arr [Str ''binary'', Str ''+'', l, r] # post) =
          (case traverse_children fold_callback ty () pre of
             None \<Rightarrow> None
           | Some (u1, pre1, r1) \<Rightarrow>
               (case traverse_children fold_callback ty () post of
                  None \<Rightarrow> None
                | Some (u2, post1, r2) \<Rightarrow>
                    Some ((), pre1 @ rebuild (sum_list ks) nms # post1, r2)))
      \<and> ExpressionOptimizer_run (Arr [Str ''binary'', Str ''+'', l, r]) =
          Some (Arr [Str ''binary'', Str ''+'', l, r]))
   \<and> (chain (Arr [Str ''binary'', Str ''+'', l, r]) = Some ([], nms) \<longrightarrow>
      traverse fold_callback () (Arr [Str ''binary'', Str ''+'', l, r]) =
        Some ((), Arr [Str ''binary'', Str ''+'', l, r], Undef))
   \<and> (leading (Arr [Str ''binary'', Str ''+'', a, b]) = Some (ls, True) \<and> exact_sums 0 ls \<longrightarrow>
      fold_callback () (Arr [Str ''binary'', Str ''+'', a, b]) ''binary'' = Some ((), Undef))
   \<and> rebuild k [] = Arr [Str ''num'', Num k]
   \<and> rebuild k (ms @ [m]) =
        Arr [Str ''binary'', Str ''+'', Arr [Str ''name'', m], rebuild k ms]"
  using walk_chain_literal[of l r ks nms] slot_chain_literal[of l r ks nms ty pre post]
    run_chain_literal[of l r ks nms] fold_no_literal[of "Arr [Str ''binary'', Str ''+'', l, r]" nms]
    fold_callback_fails[of a b ls] rebuild_Nil[of k] rebuild_snoc[of k ms m]
  by blast


theorem fold_additions_chain_witness:
  "chain (Arr [Str ''binary'', Str ''+'',
               Arr [Str ''binary'', Str ''+'', Arr [Str ''num'', Num 1], Arr [Str ''num'', Num 2]],
               Arr [Str ''name'', Str ''x'']]) = Some ([1, 2], [Str ''x''])
   \<and> exact_sums 0 [1, 2]
   \<and> traverse_children fold_callback (Str ''return'') ()
        [Str ''return'',
         Arr [Str ''binary'', Str ''+'',
              Arr [Str ''binary'', Str ''+'', Arr [Str ''num'', Num 1], Arr [Str ''num'', Num 2]],
              Arr [Str ''name'', Str ''x'']]]
      = Some ((), [Str ''return'',
                   Arr [Str ''binary'', Str ''+'', Arr [Str ''name'', Str ''x''],
                        Arr [Str ''num'', Num 3]]], Undef)
   \<and> ExpressionOptimizer_run
        (Arr [Str ''return'',
              Arr [Str ''binary'', Str ''+'',
                   Arr [Str ''binary'', Str ''+'', Arr [Str ''num'', Num 1], Arr [Str ''num'', Num 2]],
                   Arr [Str ''name'', Str ''x'']]])
      = Some (Arr [Str ''return'',
                   Arr [Str ''binary'', Str ''+'', Arr [Str ''name'', Str ''x''],
                        Arr [Str ''num'', Num 3]]])
   \<and> chain (Arr [Str ''binary'', Str ''+'', Arr [Str ''name'', Str ''x''],
                 Arr [Str ''name'', Str ''y'']]) = Some ([], [Str ''x'', Str ''y''])
   \<and> traverse fold_callback ()
        (Arr [Str ''binary'', Str ''+'', Arr [Str ''name'', Str ''x''], Arr [Str ''name'', Str ''y'']])
      = Some ((), Arr [Str ''binary'', Str ''+'', Arr [Str ''name'', Str ''x''],
                       Arr [Str ''name'', Str ''y'']], Undef)
   \<and> leading (Arr [Str ''binary'', Str ''+'',
                   Arr [Str ''object'', Arr [Arr [Str ''num'', Arr [Str ''name'', Str ''a'']]]],
                   Arr [Str ''num'', Num 1]]) = Some ([], True)
   \<and> exact_sums 0 []
   \<and> fold_callback ()
        (Arr [Str ''binary'', Str ''+'',
              Arr [Str ''object'', Arr [Arr [Str ''num'', Arr [Str ''name'', Str ''a'']]]],
              Arr [Str ''num'', Num 1]]) ''binary'' = Some ((), Undef)"
proof -
  let ?a = "Arr [Str ''binary'', Str ''+'', Arr [Str ''num'', Num 1], Arr [Str ''num'', Num 2]]"
  let ?x = "Arr [Str ''name'', Str ''x'']"
  let ?y = "Arr [Str ''name'', Str ''y'']"
  let ?o = "Arr [Str ''object'', Arr [Arr [Str ''num'', Arr [Str ''name'', Str ''a'']]]]"
  let ?one = "Arr [Str ''num'', Num 1]"
  have c1: "chain (Arr [Str ''binary'', Str ''+'', ?a, ?x]) = Some ([1, 2], [Str ''x''])"
    by simp
  have e1: "exact_sums 0 [1, 2]" by (simp add: safe_int_def)
  have c2: "chain (Arr [Str ''binary'', Str ''+'', ?x, ?y]) = Some ([], [Str ''x'', Str ''y''])"
    by simp
  have c3: "leading (Arr [Str ''binary'', Str ''+'', ?o, ?one]) = Some ([], True)"
    by (simp add: verdict_def)
  have e3: "exact_sums 0 []" by simp
  have r: "rebuild (sum_list [1, 2]) [Str ''x''] =
      Arr [Str ''binary'', Str ''+'', Arr [Str ''name'', Str ''x''], Arr [Str ''num'', Num 3]]"
    by (simp add: rebuild_def)
  have p: "traverse_children fold_callback (Str ''return'') () [Str ''return''] =
             Some ((), [Str ''return''], Undef)"
    by simp
  have w: "ExpressionOptimizer_run (Arr [Str ''return'', Arr [Str ''binary'', Str ''+'', ?a, ?x]])
      = Some (Arr [Str ''return'',
                   Arr [Str ''binary'', Str ''+'', Arr [Str ''name'', Str ''x''],
                        Arr [Str ''num'', Num 3]]])"
    by (simp add: ExpressionOptimizer_run_def fold_callback_def gather_callback_def rebuild_def
        safe_int_def)
  note T = fold_additions_chain[where l = ?a and r = ?x and ks = "[1, 2]" and nms = "[Str ''x'']"
      and ty = "Str ''return''" and pre = "[Str ''return'']" and post = "[]"
      and a = ?o and b = ?one and ls = "[]"]
  have "traverse_children fold_callback (Str ''return'') ()
          ([Str ''return''] @ Arr [Str ''binary'', Str ''+'', ?a, ?x] # []) =
        (case traverse_children fold_callback (Str ''return'') () [Str ''return''] of
           None \<Rightarrow> None
         | Some (u1, pre1, r1) \<Rightarrow>
             (case traverse_children fold_callback (Str ''return'') () [] of
                None \<Rightarrow> None
              | Some (u2, post1, r2) \<Rightarrow>
                  Some ((), pre1 @ rebuild (sum_list [1, 2]) [Str ''x''] # post1, r2)))"
    using T c1 e1 by blast
  then have s: "traverse_children fold_callback (Str ''return'') ()
        [Str ''return'', Arr [Str ''binary'', Str ''+'', ?a, ?x]]
      = Some ((), [Str ''return'',
                   Arr [Str ''binary'', Str ''+'', Arr [Str ''name'', Str ''x''],
                        Arr [Str ''num'', Num 3]]], Undef)"
    unfolding p r by simp
  have f3: "fold_callback () (Arr [Str ''binary'', Str ''+'', ?o, ?one]) ''binary'' = Some ((), Undef)"
    using T c3 e3 by blast
  have n2: "traverse fold_callback () (Arr [Str ''binary'', Str ''+'', ?x, ?y])
      = Some ((), Arr [Str ''binary'', Str ''+'', ?x, ?y], Undef)"
    using fold_additions_chain[where l = ?x and r = ?y and nms = "[Str ''x'', Str ''y'']"] c2
    by blast
  show ?thesis
    by (intro conjI) (rule c1 e1 s w c2 n2 c3 e3 f3)+
qed

text \<open>
  The claim as stated fails in three ways. For \<^verbatim>\<open>1 + x\<close> the code builds
  \<^verbatim>\<open>x + 1\<close>, not the tree of the claim, \<^verbatim>\<open>1 + x\<close>. In \<^verbatim>\<open>f(1 + 2) + x\<close> the chain
  holds a call, yet the tree is not left unchanged: the chain nested in the argument is
  folded. And a \<^verbatim>\<open>binary '+'\<close> node that is the root given to \<^verbatim>\<open>run\<close> is not replaced,
  since \<^verbatim>\<open>run\<close> drops the value the walk returns.
\<close>

theorem fold_additions_counterexample:
  "ExpressionOptimizer_run
     (Arr [Arr [Str ''binary'', Str ''+'', Arr [Str ''num'', Num 1], Arr [Str ''name'', Str ''x'']]])
     = Some (Arr [Arr [Str ''binary'', Str ''+'', Arr [Str ''name'', Str ''x''],
                       Arr [Str ''num'', Num 1]]])
   \<and> ExpressionOptimizer_run
     (Arr [Arr [Str ''binary'', Str ''+'', Arr [Str ''num'', Num 1], Arr [Str ''name'', Str ''x'']]])
     \<noteq> Some (Arr [claimed_chain 1 [Str ''x'']])
   \<and> ExpressionOptimizer_run
     (Arr [Arr [Str ''binary'', Str ''+'',
                Arr [Str ''call'', Arr [Str ''name'', Str ''f''],
                     Arr [Arr [Str ''binary'', Str ''+'', Arr [Str ''num'', Num 1],
                               Arr [Str ''num'', Num 2]]]],
                Arr [Str ''name'', Str ''x'']]])
     = Some (Arr [Arr [Str ''binary'', Str ''+'',
                Arr [Str ''call'', Arr [Str ''name'', Str ''f''], Arr [Arr [Str ''num'', Num 3]]],
                Arr [Str ''name'', Str ''x'']]])
   \<and> ExpressionOptimizer_run
     (Arr [Str ''binary'', Str ''+'', Arr [Str ''num'', Num 1], Arr [Str ''num'', Num 2]])
     = Some (Arr [Str ''binary'', Str ''+'', Arr [Str ''num'', Num 1], Arr [Str ''num'', Num 2]])"
  by (simp add: ExpressionOptimizer_run_def observe_def fold_callback_def gather_callback_def
      rebuild_def claimed_chain_def safe_int_def)

section \<open>The eliminator\<close>

text \<open>
  The tables of \<^verbatim>\<open>Eliminator\<close> (lines 115 to 139) are JavaScript objects used as
  maps from names to values. A table is an association list, so that \<^verbatim>\<open>for (k in t)\<close>
  is a walk along its keys in the order in which they were first stored.
  \<open>AList.update\<close> writes a key in place or appends it. A value that is used as a key
  is read as its text (\<open>js_toString\<close>). Names that read as array indices are outside
  the model.

  A read \<^verbatim>\<open>t[k]\<close> and a test \<^verbatim>\<open>k in t\<close> also see what every object inherits from
  \<^verbatim>\<open>Object.prototype\<close>: when \<^verbatim>\<open>t\<close> has no entry \<^verbatim>\<open>toString\<close> of its own,
  \<^verbatim>\<open>t['toString']\<close> is a function, which \<^verbatim>\<open>if\<close> takes for true. The model reads
  the entries of the table only (\<open>has\<close>, \<open>holds\<close>, \<open>map_of\<close>). It follows the source
  on the names that \<^verbatim>\<open>Object.prototype\<close> does not have, the \<open>plain\<close> names; a
  statement about a lookup is made for plain names.
\<close>

type_synonym 'a table = "(string \<times> 'a) list"

definition has :: "'a table \<Rightarrow> string \<Rightarrow> bool" where
  "has t k = (map_of t k \<noteq> None)"

definition holds :: "bool table \<Rightarrow> string \<Rightarrow> bool" where
  "holds t k = (map_of t k = Some True)"

definition Object_prototype :: "string list" where
  "Object_prototype =
     [''constructor'', ''toString'', ''toLocaleString'', ''valueOf'', ''hasOwnProperty'',
      ''isPrototypeOf'', ''propertyIsEnumerable'', ''__proto__'', ''__defineGetter__'',
      ''__defineSetter__'', ''__lookupGetter__'', ''__lookupSetter__'']"

definition plain :: "string \<Rightarrow> bool" where
  "plain k \<longleftrightarrow> k \<notin> set Object_prototype"

text \<open>A loop over a list whose body may throw.\<close>

fun for_each :: "('a \<Rightarrow> 's \<Rightarrow> 's option) \<Rightarrow> 'a list \<Rightarrow> 's \<Rightarrow> 's option" where
  "for_each f [] s = Some s"
| "for_each f (x # xs) s = (case f x s of None \<Rightarrow> None | Some s1 \<Rightarrow> for_each f xs s1)"

text \<open>The values \<^verbatim>\<open>x[0]\<close>, ..., \<^verbatim>\<open>x[x.length - 1]\<close> of
  \<^verbatim>\<open>for (i = 0; i < x.length; i++)\<close>.\<close>

fun elements :: "node \<Rightarrow> node list option" where
  "elements (Arr xs) = Some xs"
| "elements (Str s) = Some (map (\<lambda>c. Str [c]) s)"
| "elements (Num n) = Some []"
| "elements (Bool b) = Some []"
| "elements Undef = None"
| "elements Null = None"

record eliminator =
  body :: node
  isLocal :: "bool table"
  isSingleDef :: "bool table"
  useCount :: "nat table"
  usesOnlySimpleNodes :: "bool table"
  dependsOnAGlobal :: "bool table"
  depsMutatedInLiveRange :: "bool table"
  initialValue :: "node table"
  affects :: "string list table"

text \<open>
  An object in which only \<^verbatim>\<open>true\<close> (or 1) is ever stored is the list of its keys, in
  the order in which they were added.
\<close>

definition add_key :: "string \<Rightarrow> string list \<Rightarrow> string list" where
  "add_key k ks = (if k \<in> set ks then ks else ks @ [k])"

definition targets_of :: "eliminator \<Rightarrow> string \<Rightarrow> string list" where
  "targets_of e s = (case map_of (affects e) s of None \<Rightarrow> [] | Some ts \<Rightarrow> ts)"

definition Eliminator :: "node \<Rightarrow> eliminator option" where
  "Eliminator func =
     (case idx func 3 of
        None \<Rightarrow> None
      | Some b \<Rightarrow>
          Some \<lparr>body = b, isLocal = [], isSingleDef = [], useCount = [],
                usesOnlySimpleNodes = [], dependsOnAGlobal = [], depsMutatedInLiveRange = [],
                initialValue = [], affects = []\<rparr>)"

subsection \<open>The basic variable scan\<close>

text \<open>\<^verbatim>\<open>calculateBasicVarStats\<close>, lines 170 to 193. \<open>declare_var\<close> is one round
  of the loop of lines 174 to 183.\<close>

definition declare_var :: "node \<Rightarrow> eliminator \<Rightarrow> eliminator option" where
  "declare_var node1i e =
     (case idx node1i 0 of
        None \<Rightarrow> None
      | Some n \<Rightarrow>
          (case idx node1i 1 of
             None \<Rightarrow> None
           | Some v \<Rightarrow>
               let varName = js_toString n;
                   varValue = (if js_truthy v then v else Arr [Str ''name'', Str ''undefined''])
               in Some (e\<lparr>isLocal := AList.update varName True (isLocal e),
                           isSingleDef :=
                             AList.update varName (\<not> has (isSingleDef e) varName) (isSingleDef e),
                           initialValue := AList.update varName varValue (initialValue e),
                           useCount := AList.update varName 0 (useCount e)\<rparr>)))"

definition scan_callback :: "eliminator callback" where
  "scan_callback e node type =
     (if type = ''var'' then
        (case idx node 1 of
           None \<Rightarrow> None
         | Some node1 \<Rightarrow>
             (case elements node1 of
                None \<Rightarrow> None
              | Some entries \<Rightarrow>
                  (case for_each declare_var entries e of
                     None \<Rightarrow> None
                   | Some e1 \<Rightarrow> Some (e1, Undef))))
      else if type = ''name'' then
        (case idx node 1 of
           None \<Rightarrow> None
         | Some v \<Rightarrow>
             let varName = js_toString v in
             (case map_of (useCount e) varName of
                Some c \<Rightarrow> Some (e\<lparr>useCount := AList.update varName (c + 1) (useCount e)\<rparr>, Undef)
              | None \<Rightarrow>
                  Some (e\<lparr>isSingleDef := AList.update varName False (isSingleDef e)\<rparr>, Undef)))
      else if type = ''assign'' then
        (case idx node 2 of
           None \<Rightarrow> None
         | Some target \<Rightarrow>
             (case idx target 1 of
                None \<Rightarrow> None
              | Some v \<Rightarrow>
                  let varName = js_toString v in
                  if holds (isSingleDef e) varName
                  then Some (e\<lparr>isSingleDef := AList.update varName False (isSingleDef e)\<rparr>, Undef)
                  else Some (e, Undef)))
      else Some (e, Undef))"

definition calculateBasicVarStats :: "eliminator \<Rightarrow> eliminator option" where
  "calculateBasicVarStats e =
     (case traverse scan_callback e (body e) of
        None \<Rightarrow> None
      | Some (e1, b, r) \<Rightarrow> Some e1)"

subsection \<open>Initial values\<close>

text \<open>\<^verbatim>\<open>analyzeInitialValues\<close>, lines 200 to 217, and the constants of lines 53 to 80.\<close>

definition NODES_WITHOUT_SIDE_EFFECTS :: "string list" where
  "NODES_WITHOUT_SIDE_EFFECTS =
     [''name'', ''num'', ''string'', ''binary'', ''sub'', ''unary-prefix'']"

definition CONTROL_FLOW_NODES :: "string list" where
  "CONTROL_FLOW_NODES = [''new'', ''throw'', ''call'', ''label'', ''debugger'']"

definition ANALYZE_BLOCK_TYPES :: "string list" where
  "ANALYZE_BLOCK_TYPES = [''switch'', ''if'', ''try'', ''do'', ''while'', ''for'', ''for-in'']"

definition initial_callback :: "string \<Rightarrow> eliminator callback" where
  "initial_callback varName e node type =
     (if type \<notin> set NODES_WITHOUT_SIDE_EFFECTS then
        Some (e\<lparr>usesOnlySimpleNodes := AList.update varName False (usesOnlySimpleNodes e)\<rparr>, Undef)
      else if type = ''name'' then
        (case idx node 1 of
           None \<Rightarrow> None
         | Some v \<Rightarrow>
             if \<not> eq_lit v ''undefined'' then
               let reference = js_toString v;
                   aff = targets_of e reference;
                   dg = (if \<not> holds (isLocal e) reference
                         then AList.update varName True (dependsOnAGlobal e)
                         else dependsOnAGlobal e)
               in Some (e\<lparr>dependsOnAGlobal := dg,
                           affects := AList.update reference (add_key varName aff) (affects e)\<rparr>, Undef)
             else Some (e, Undef))
      else Some (e, Undef))"

definition analyze_initial :: "string \<Rightarrow> eliminator \<Rightarrow> eliminator option" where
  "analyze_initial varName e =
     (if \<not> holds (isSingleDef e) varName then Some e
      else
        (case map_of (initialValue e) varName of
           None \<Rightarrow> None
         | Some v \<Rightarrow>
             (case traverse (initial_callback varName)
                     (e\<lparr>usesOnlySimpleNodes :=
                          AList.update varName True (usesOnlySimpleNodes e)\<rparr>) v of
                None \<Rightarrow> None
              | Some (e1, v1, r) \<Rightarrow> Some e1)))"

definition analyzeInitialValues :: "eliminator \<Rightarrow> eliminator option" where
  "analyzeInitialValues e = for_each analyze_initial (map fst (isSingleDef e)) e"

subsection \<open>Transitive dependencies\<close>

text \<open>
  \<^verbatim>\<open>calculateTransitiveDependencies\<close>, lines 221 to 253. \<open>closure_round\<close> is one
  round of the \<^verbatim>\<open>while\<close> loop; \<open>merge_source\<close>, \<open>merge_target\<close> and
  \<open>merge_target2\<close> are the bodies of the three nested \<^verbatim>\<open>for\<close> loops. A
  \<^verbatim>\<open>for (k in t)\<close> loop walks the keys that \<open>t\<close> has when the loop starts; keys added
  during the loop are not visited (as in V8). The tests of lines 236, 239 and 240 are
  read for plain names.
\<close>

record closure_state =
  elim :: eliminator
  nextTodo :: "string list"
  incomplete :: bool

definition merge_target2 :: "string \<Rightarrow> string \<Rightarrow> closure_state \<Rightarrow> closure_state" where
  "merge_target2 source target2 st =
     (let e = elim st; targets = targets_of e source in
      if target2 \<notin> set targets then
        st\<lparr>elim := e\<lparr>dependsOnAGlobal :=
                         (if \<not> holds (isLocal e) source
                          then AList.update target2 True (dependsOnAGlobal e)
                          else dependsOnAGlobal e),
                       affects := AList.update source (targets @ [target2]) (affects e)\<rparr>,
           nextTodo := add_key source (nextTodo st),
           incomplete := True\<rparr>
      else st)"

definition merge_target :: "string list \<Rightarrow> string \<Rightarrow> string \<Rightarrow> closure_state \<Rightarrow> closure_state" where
  "merge_target todo source target st =
     (if target \<in> set todo
      then fold (merge_target2 source) (targets_of (elim st) target) st
      else st)"

definition merge_source :: "string list \<Rightarrow> string \<Rightarrow> closure_state \<Rightarrow> closure_state" where
  "merge_source todo source st =
     fold (merge_target todo source) (targets_of (elim st) source) st"

definition closure_round :: "string list \<Rightarrow> eliminator \<Rightarrow> closure_state" where
  "closure_round todo e =
     fold (merge_source todo) (map fst (affects e))
       \<lparr>elim = e, nextTodo = [], incomplete = False\<rparr>"

partial_function (option) closure_loop :: "string list \<Rightarrow> eliminator \<Rightarrow> eliminator option" where
  "closure_loop todo e =
     (let st = closure_round todo e in
      if incomplete st then closure_loop (nextTodo st) (elim st) else Some (elim st))"

definition calculateTransitiveDependencies :: "eliminator \<Rightarrow> eliminator option" where
  "calculateTransitiveDependencies e = closure_loop (map fst (affects e)) e"

subsection \<open>Live ranges\<close>

text \<open>
  \<^verbatim>\<open>analyzeLiveRanges\<close>, lines 258 to 371. The state of the walk is the local object
  \<^verbatim>\<open>isLive\<close> together with the tables. \<open>base_name\<close> is the loop of lines 272 to
  276, which throws when it runs off the left-hand side. The flags of lines 290, 296 and
  302 are read for plain names.
\<close>

fun js_slice :: "node \<Rightarrow> nat \<Rightarrow> nat \<Rightarrow> node option" where
  "js_slice (Arr xs) i j = Some (Arr (take (j - i) (drop i xs)))"
| "js_slice (Str s) i j = Some (Str (take (j - i) (drop i s)))"
| "js_slice v i j = None"

definition collect_names :: "string list callback" where
  "collect_names used node type =
     (if type = ''name'' then
        (case idx node 1 of
           None \<Rightarrow> None
         | Some v \<Rightarrow> Some (add_key (js_toString v) used, Undef))
      else Some (used, Undef))"

fun base_name :: "node \<Rightarrow> node option" where
  "base_name (Arr []) = None"
| "base_name (Arr [x]) = (if eq_lit x ''name'' then Some Undef else None)"
| "base_name (Arr (x # y # zs)) = (if eq_lit x ''name'' then Some y else base_name y)"
| "base_name v = None"

definition kill :: "string \<Rightarrow> bool table \<Rightarrow> bool table" where
  "kill v live = (if holds live v then AList.update v False live else live)"

definition kill_affected :: "eliminator \<Rightarrow> string \<Rightarrow> bool table \<Rightarrow> bool table" where
  "kill_affected e reference live = fold kill (targets_of e reference) live"

definition checkForMutations :: "(bool table \<times> eliminator) callback" where
  "checkForMutations s node type =
     (case s of (isLive, e) \<Rightarrow>
      (case (if type = ''assign'' \<or> type = ''call'' then
               (case js_slice node 2 4 of
                  None \<Rightarrow> None
                | Some args \<Rightarrow>
                    (case traverse collect_names [] args of
                       None \<Rightarrow> None
                     | Some (used, n1, r) \<Rightarrow> Some used))
             else Some []) of
         None \<Rightarrow> None
       | Some usedInThisStatement \<Rightarrow>
      (case (if type = ''assign'' \<or> type = ''unary-prefix'' \<or> type = ''unary-postfix'' then
               (case idx node 1 of
                  None \<Rightarrow> None
                | Some op \<Rightarrow>
                    if type = ''assign'' \<or> eq_lit op ''--'' \<or> eq_lit op ''++'' then
                      (case idx node 2 of
                         None \<Rightarrow> None
                       | Some target \<Rightarrow>
                           (case base_name target of
                              None \<Rightarrow> None
                            | Some reference \<Rightarrow>
                                Some (kill_affected e (js_toString reference) isLive)))
                    else Some isLive)
             else Some isLive) of
         None \<Rightarrow> None
       | Some live1 \<Rightarrow>
           if type \<in> set CONTROL_FLOW_NODES then
             Some ((map (\<lambda>(varName, b).
                      (varName,
                       if holds (dependsOnAGlobal e) varName \<or> varName \<notin> set usedInThisStatement
                       then False else b)) live1, e), Undef)
           else if type = ''assign'' then
             Some ((map (\<lambda>(varName, b).
                      (varName,
                       if holds (dependsOnAGlobal e) varName \<and> varName \<notin> set usedInThisStatement
                       then False else b)) live1, e), Undef)
           else if type = ''name'' then
             (case idx node 1 of
                None \<Rightarrow> None
              | Some v \<Rightarrow>
                  let reference = js_toString v in
                  if holds (isSingleDef e) reference \<and> \<not> holds live1 reference then
                    Some ((live1, e\<lparr>depsMutatedInLiveRange :=
                                    AList.update reference True (depsMutatedInLiveRange e)\<rparr>), Undef)
                  else Some ((live1, e), Undef))
           else Some ((live1, e), Undef))))"

definition merge_live :: "bool table \<Rightarrow> bool table \<Rightarrow> bool table" where
  "merge_live saved isLive =
     fold (\<lambda>name savedLive. if \<not> holds isLive name then AList.update name False savedLive
                             else savedLive)
       (map fst isLive) (map (\<lambda>(name, b). (name, True)) saved)"

definition live_var :: "node \<Rightarrow> (bool table \<times> eliminator) \<Rightarrow> (bool table \<times> eliminator) option" where
  "live_var node1i s =
     (case idx node1i 0 of
        None \<Rightarrow> None
      | Some n \<Rightarrow>
          (case idx node1i 1 of
             None \<Rightarrow> None
           | Some varValue \<Rightarrow>
               (case (if js_truthy varValue
                      then (case traverse checkForMutations s varValue of
                              None \<Rightarrow> None
                            | Some (s1, v1, r) \<Rightarrow> Some s1)
                      else Some s) of
                  None \<Rightarrow> None
                | Some (isLive, e) \<Rightarrow>
                    let varName = js_toString n;
                        live1 = (if holds (isSingleDef e) varName
                                 then AList.update varName True isLive else isLive)
                    in Some (kill_affected e varName live1, e))))"

text \<open>
  \<^verbatim>\<open>analyzeBlock\<close> is the callback of a walk and starts walks of its own; the walker
  calls its callback on nodes that are no larger than the one it is given.
\<close>

lemma size_element: "x \<in> set xs \<Longrightarrow> size (x::node) < Suc (size_list size xs)"
  by (induction xs) auto

lemma traverse_cong_aux:
  "(\<forall>s0 m t. size m \<le> size n \<longrightarrow> cb s0 m t = cb' s0 m t) \<longrightarrow>
     traverse cb s n = traverse cb' s n"
  "(\<forall>x \<in> set xs. \<forall>s0 m t. size m \<le> size x \<longrightarrow> cb s0 m t = cb' s0 m t) \<longrightarrow>
     traverse_children cb ty s xs = traverse_children cb' ty s xs"
proof (induction s n and ty s xs rule: traverse_induct[where cb=cb])
  case (Arr s xs)
  show ?case
  proof
    assume a: "\<forall>s0 m t. size m \<le> size (Arr xs) \<longrightarrow> cb s0 m t = cb' s0 m t"
    then have o: "observe cb s (Arr xs) = observe cb' s (Arr xs)"
      by (auto simp: observe_def split: option.splits node.splits)
    have c: "\<forall>x \<in> set xs. \<forall>s0 m t. size m \<le> size x \<longrightarrow> cb s0 m t = cb' s0 m t"
    proof (intro ballI allI impI)
      fix x :: node and s0 and m :: node and t assume "x \<in> set xs" "size m \<le> size x"
      then have "size m \<le> size (Arr xs)" using size_element[of x xs] by simp
      then show "cb s0 m t = cb' s0 m t" using a by blast
    qed
    show "traverse cb s (Arr xs) = traverse cb' s (Arr xs)"
    proof (cases "observe cb s (Arr xs)")
      case None
      then show ?thesis using o by simp
    next
      case (Some p)
      obtain s1 res where p: "p = (s1, res)" by (cases p)
      show ?thesis
      proof (cases "js_truthy res")
        case True
        then show ?thesis using Some p o by simp
      next
        case False
        have "traverse_children cb (case xs of [] \<Rightarrow> Undef | x # ys \<Rightarrow> x) s1 xs =
              traverse_children cb' (case xs of [] \<Rightarrow> Undef | x # ys \<Rightarrow> x) s1 xs"
          using Arr.IH[of s1 res] Some p False c by simp
        then show ?thesis using Some p o False by simp
      qed
    qed
  qed
next
  case (Other s v)
  then show ?case by (cases v) (auto simp: observe_def split: option.splits node.splits)
next
  case (Nil ty s)
  then show ?case by simp
next
  case (Cons ty s x xs)
  show ?case
  proof
    assume a: "\<forall>y \<in> set (x # xs). \<forall>s0 m t. size m \<le> size y \<longrightarrow> cb s0 m t = cb' s0 m t"
    show "traverse_children cb ty s (x # xs) = traverse_children cb' ty s (x # xs)"
    proof (cases "visited ty x")
      case True
      have t: "traverse cb s x = traverse cb' s x" using Cons.IH(1)[OF True] a by simp
      show ?thesis
      proof (cases "traverse cb s x")
        case None
        then show ?thesis using t True by (simp del: visited_def)
      next
        case (Some p)
        obtain s1 x1 sub where p: "p = (s1, x1, sub)" by (cases p)
        show ?thesis
        proof (cases "sub = Bool False")
          case True
          then show ?thesis using Some p t \<open>visited ty x\<close> by (simp del: visited_def)
        next
          case False
          have "traverse_children cb ty s1 xs = traverse_children cb' ty s1 xs"
            using Cons.IH(2)[OF True _ False, of s1 x1] Some p a by simp
          then show ?thesis using Some p t True False by (simp del: visited_def)
        qed
      qed
    next
      case False
      have "traverse_children cb ty s xs = traverse_children cb' ty s xs"
        using Cons.IH(3)[OF False] a by simp
      then show ?thesis using False by (simp del: visited_def)
    qed
  qed
qed

lemma traverse_cong [fundef_cong]:
  assumes "s = s'" and "n = n'"
    and "\<And>s0 m t. size m \<le> size n' \<Longrightarrow> cb s0 m t = cb' s0 m t"
  shows "traverse cb s n = traverse cb' s' n'"
  using traverse_cong_aux(1)[of n' cb cb' s'] assms by simp

lemma for_each_cong [fundef_cong]:
  assumes "xs = ys" and "s = s'" and "\<And>x s0. x \<in> set ys \<Longrightarrow> f x s0 = g x s0"
  shows "for_each f xs s = for_each g ys s'"
  using assms(3) unfolding assms(1,2)
  by (induction ys arbitrary: s') (auto split: option.splits)

lemma idx_size: "idx n i = Some c \<Longrightarrow> is_child c \<Longrightarrow> size c < size n"
  by (cases n) (auto intro: size_element split: if_splits)

lemma elements_child: "elements n = Some xs \<Longrightarrow> c \<in> set xs \<Longrightarrow> is_child c \<Longrightarrow> is_child n"
  by (cases n) auto

lemma elements_size: "elements n = Some xs \<Longrightarrow> c \<in> set xs \<Longrightarrow> is_child c \<Longrightarrow> size c < size n"
  by (cases n) (auto intro: size_element)

function analyzeBlock :: "(bool table \<times> eliminator) callback"
  and traverseChild :: "node \<Rightarrow> (bool table \<times> eliminator) \<Rightarrow> (bool table \<times> eliminator) option"
where
  "analyzeBlock s node type =
     (if type \<in> set ANALYZE_BLOCK_TYPES then
        (if type = ''switch'' then
           (case idx node 1 of
              None \<Rightarrow> None
            | Some c \<Rightarrow>
                (case traverseChild c s of
                   None \<Rightarrow> None
                 | Some s1 \<Rightarrow>
                     (case idx node 2 of
                        None \<Rightarrow> None
                      | Some node2 \<Rightarrow>
                          (case elements node2 of
                             None \<Rightarrow> None
                           | Some cases \<Rightarrow>
                               (case for_each traverseChild cases s1 of
                                  None \<Rightarrow> None
                                | Some s2 \<Rightarrow> Some (s2, node))))))
         else if type = ''if'' \<or> type = ''try'' then
           (case elements node of
              None \<Rightarrow> None
            | Some children \<Rightarrow>
                (case for_each traverseChild children s of
                   None \<Rightarrow> None
                 | Some s1 \<Rightarrow> Some (s1, node)))
         else
           (case node of
              Arr children \<Rightarrow>
                (case for_each traverseChild children ([], snd s) of
                   None \<Rightarrow> None
                 | Some s1 \<Rightarrow> Some (([], snd s1), node))
            | v \<Rightarrow> None))
      else if type = ''var'' then
        (case idx node 1 of
           None \<Rightarrow> None
         | Some node1 \<Rightarrow>
             (case elements node1 of
                None \<Rightarrow> None
              | Some entries \<Rightarrow>
                  (case for_each live_var entries s of
                     None \<Rightarrow> None
                   | Some s1 \<Rightarrow> Some (s1, node))))
      else checkForMutations s node type)"
| "traverseChild child s =
     (if is_child child then
        (case traverse (\<lambda>s0 m t. analyzeBlock s0 m t) s child of
           None \<Rightarrow> None
         | Some (s1, c1, r) \<Rightarrow> Some (merge_live (fst s) (fst s1), snd s1))
      else Some s)"
  by pat_completeness auto
termination
  apply (relation "measure (\<lambda>x. case x of
              Inl (s, node, type) \<Rightarrow> 2 * size node + 1
            | Inr (child, s) \<Rightarrow> if is_child child then 2 * size child + 2 else 0)")
     apply simp_all
  subgoal for node type x2
    using idx_size[of node "Suc 0" x2] by auto
  subgoal for s node type x2 x2a x2b x2c x
    using idx_size[of node 2 x2b] elements_size[of x2b x2c x] elements_child[of x2b x2c x]
    by auto
  subgoal for node type x2 x
    using elements_size[of node x2 x] by auto
  subgoal for node type x6 x
    using size_element[of x x6] by auto
  done

declare analyzeBlock.simps [simp del] traverseChild.simps [simp del]

text \<open>The walks of the analysis never change the tree: \<^verbatim>\<open>analyzeBlock\<close> returns the
  node it was given or nothing.\<close>

definition analyzeLiveRanges :: "eliminator \<Rightarrow> eliminator option" where
  "analyzeLiveRanges e =
     (case traverse analyzeBlock ([], e) (body e) of
        None \<Rightarrow> None
      | Some ((isLive, e1), b, r) \<Rightarrow> Some e1)"

subsection \<open>The rewriter\<close>

text \<open>
  \<^verbatim>\<open>isEliminateable\<close> (lines 375 to 384), \<^verbatim>\<open>removeDeclarations\<close> (388 to 400),
  \<^verbatim>\<open>collapseValues\<close> (405 to 420), \<^verbatim>\<open>updateUses\<close> (425 to 431) and \<^verbatim>\<open>run\<close>
  (143 to 163).

  The callback of \<^verbatim>\<open>removeDeclarations\<close> assigns to \<^verbatim>\<open>node[1]\<close> and returns the
  node; here it returns the node with the new field. When the root of the walk is itself
  a \<^verbatim>\<open>var\<close> node that keeps a declaration, the source has changed the root in place, which
  is the value the walk returns.

  The initial values in the tables are the subtrees of the body themselves; the model
  holds copies. The copies and the shared trees end as the same trees when no eliminated
  name is reachable from its own initial value, which is the case the claims are about.
  In \<^verbatim>\<open>collapseValues\<close> the comparison \<^verbatim>\<open>node[1] != varName\<close> of a number or a
  boolean with a name is outside the modelled fragment. The flags of lines 376 and 380
  are read for plain names.
\<close>

definition MAX_USES :: nat where
  "MAX_USES = 1"

definition isEliminateable :: "eliminator \<Rightarrow> string \<Rightarrow> bool" where
  "isEliminateable e varName =
     (if holds (isSingleDef e) varName \<and> holds (usesOnlySimpleNodes e) varName then
        (case map_of (useCount e) varName of
           None \<Rightarrow> False
         | Some c \<Rightarrow>
             if c = 0 then True
             else if c \<le> MAX_USES then \<not> holds (depsMutatedInLiveRange e) varName
             else False)
      else False)"

fun keep_entry :: "node table \<Rightarrow> node \<Rightarrow> bool option" where
  "keep_entry toRemove i =
     (case idx i 0 of None \<Rightarrow> None | Some n \<Rightarrow> Some (\<not> has toRemove (js_toString n)))"

fun filter_entries :: "node table \<Rightarrow> node list \<Rightarrow> node list option" where
  "filter_entries toRemove [] = Some []"
| "filter_entries toRemove (i # is) =
     (case keep_entry toRemove i of
        None \<Rightarrow> None
      | Some k \<Rightarrow>
          (case filter_entries toRemove is of
             None \<Rightarrow> None
           | Some rest \<Rightarrow> Some (if k then i # rest else rest)))"

definition remove_callback :: "node table \<Rightarrow> unit callback" where
  "remove_callback toRemove u node type =
     (if type = ''var'' then
        (case node of
           Arr (t # Arr entries # rest) \<Rightarrow>
             (case filter_entries toRemove entries of
                None \<Rightarrow> None
              | Some intactVars \<Rightarrow>
                  if intactVars \<noteq> [] then Some (u, Arr (t # Arr intactVars # rest))
                  else Some (u, Arr [Str ''toplevel'', Arr []]))
         | v \<Rightarrow> None)
      else Some (u, Undef))"

definition removeDeclarations :: "node table \<Rightarrow> node \<Rightarrow> node option" where
  "removeDeclarations toRemove b =
     (case traverse (remove_callback toRemove) () b of
        None \<Rightarrow> None
      | Some (u, b1, r) \<Rightarrow>
          (case r of
             Arr (Str t # rest) \<Rightarrow> if t = ''var'' then Some r else Some b1
           | v \<Rightarrow> Some b1))"

fun loose_eq :: "node \<Rightarrow> string \<Rightarrow> bool option" where
  "loose_eq (Str s) v = Some (s = v)"
| "loose_eq (Arr xs) v = Some (js_join xs = v)"
| "loose_eq Undef v = Some False"
| "loose_eq Null v = Some False"
| "loose_eq (Num n) v = None"
| "loose_eq (Bool b) v = None"

definition collapse_callback :: "node table \<Rightarrow> string \<Rightarrow> bool callback" where
  "collapse_callback values varName inc node type =
     (if type = ''name'' then
        (case idx node 1 of
           None \<Rightarrow> None
         | Some v \<Rightarrow>
             (case map_of values (js_toString v) of
                None \<Rightarrow> Some (inc, Undef)
              | Some replacement \<Rightarrow>
                  (case loose_eq v varName of
                     None \<Rightarrow> None
                   | Some same \<Rightarrow>
                       if \<not> same then Some (True, replacement) else Some (inc, Undef))))
      else Some (inc, Undef))"

definition collapse_one :: "string \<Rightarrow> (node table \<times> bool) \<Rightarrow> (node table \<times> bool) option" where
  "collapse_one varName s =
     (case s of (values, inc) \<Rightarrow>
        (case map_of values varName of
           None \<Rightarrow> None
         | Some varValue \<Rightarrow>
             (case traverse (collapse_callback values varName) inc varValue of
                None \<Rightarrow> None
              | Some (inc1, varValue1, result) \<Rightarrow>
                  Some (AList.update varName (if js_truthy result then result else varValue1) values,
                        inc1))))"

partial_function (option) collapseValues :: "node table \<Rightarrow> node table option" where
  "collapseValues values =
     (case for_each collapse_one (map fst values) (values, False) of
        None \<Rightarrow> None
      | Some (values1, inc) \<Rightarrow>
          if inc then collapseValues values1 else Some values1)"

declare collapseValues.simps [code]

definition update_callback :: "node table \<Rightarrow> unit callback" where
  "update_callback replacements u node type =
     (if type = ''name'' then
        (case idx node 1 of
           None \<Rightarrow> None
         | Some v \<Rightarrow>
             (case map_of replacements (js_toString v) of
                None \<Rightarrow> Some (u, Undef)
              | Some replacement \<Rightarrow> Some (u, replacement)))
      else Some (u, Undef))"

definition updateUses :: "node table \<Rightarrow> node \<Rightarrow> node option" where
  "updateUses replacements b =
     (case traverse (update_callback replacements) () b of
        None \<Rightarrow> None
      | Some (u, b1, r) \<Rightarrow> Some b1)"

definition analyses :: "eliminator \<Rightarrow> eliminator option" where
  "analyses e =
     (case calculateBasicVarStats e of
        None \<Rightarrow> None
      | Some e1 \<Rightarrow>
          (case analyzeInitialValues e1 of
             None \<Rightarrow> None
           | Some e2 \<Rightarrow>
               (case calculateTransitiveDependencies e2 of
                  None \<Rightarrow> None
                | Some e3 \<Rightarrow> analyzeLiveRanges e3)))"

definition toReplace_of :: "eliminator \<Rightarrow> node table" where
  "toReplace_of e =
     map (\<lambda>varName. (varName, case map_of (initialValue e) varName of
                                   None \<Rightarrow> Undef | Some v \<Rightarrow> v))
       (filter (isEliminateable e) (map fst (isSingleDef e)))"

definition run :: "eliminator \<Rightarrow> (eliminator \<times> nat) option" where
  "run e =
     (case analyses e of
        None \<Rightarrow> None
      | Some e1 \<Rightarrow>
          let toReplace = toReplace_of e1;
              eliminated = length toReplace
          in (case removeDeclarations toReplace (body e1) of
                None \<Rightarrow> None
              | Some b1 \<Rightarrow>
                  (case collapseValues toReplace of
                     None \<Rightarrow> None
                   | Some values \<Rightarrow>
                       (case updateUses values b1 of
                          None \<Rightarrow> None
                        | Some b2 \<Rightarrow> Some (e1\<lparr>body := b2\<rparr>, eliminated)))))"

definition optimize_function :: "node \<Rightarrow> (node \<times> nat) option" where
  "optimize_function func =
     (case Eliminator func of
        None \<Rightarrow> None
      | Some e \<Rightarrow>
          (case run e of None \<Rightarrow> None | Some (e1, eliminated) \<Rightarrow> Some (body e1, eliminated)))"

declare closure_loop.simps [code]

section \<open>Properties of the analyses\<close>

subsection \<open>Kills in the live-range analyzer\<close>

lemma map_of_map_snd:
  "map_of (map (\<lambda>(k, b). (k, f k b)) l) k = map_option (f k) (map_of l k)"
  by (induction l) auto

lemma holds_kill: "holds (kill w live) v = (holds live v \<and> (v = w \<longrightarrow> False))"
  by (auto simp: kill_def holds_def update_conv')

lemma holds_fold_kill: "holds (fold kill ws live) v = (holds live v \<and> v \<notin> set ws)"
  by (induction ws arbitrary: live) (auto simp: holds_kill)

lemma holds_kill_affected:
  "holds (kill_affected e reference live) v = (holds live v \<and> v \<notin> set (targets_of e reference))"
  by (simp add: kill_affected_def holds_fold_kill)

lemma keys_kill: "map fst (kill w live) = map fst live"
  by (auto simp: kill_def holds_def update_keys dest: map_of_SomeD intro: image_eqI[where x="(w, True)"])

lemma control_flow_not_mutation:
  "type \<in> set CONTROL_FLOW_NODES \<Longrightarrow>
     type \<noteq> ''assign'' \<and> type \<noteq> ''unary-prefix'' \<and> type \<noteq> ''unary-postfix'' \<and> type \<noteq> ''name''"
  by (auto simp: CONTROL_FLOW_NODES_def)

lemma check_control_flow_other:
  assumes "type \<in> set CONTROL_FLOW_NODES" and "type \<noteq> ''call''"
  shows "checkForMutations (isLive, e) node type =
           Some ((map (\<lambda>(varName, b). (varName, False)) isLive, e), Undef)"
  using assms control_flow_not_mutation[OF assms(1)]
  by (simp add: checkForMutations_def)

lemma check_call:
  assumes "js_slice node 2 4 = Some args"
    and "traverse collect_names [] args = Some (used, n1, r)"
  shows "checkForMutations (isLive, e) node ''call'' =
           Some ((map (\<lambda>(varName, b).
                    (varName, b \<and> \<not> holds (dependsOnAGlobal e) varName \<and> varName \<in> set used))
                  isLive, e), Undef)"
  using assms by (auto simp: checkForMutations_def CONTROL_FLOW_NODES_def split: if_splits)

text \<open>The collection of the names of line 265 returns on every tree.\<close>

lemma collect_names_total:
  "n \<noteq> Undef \<and> n \<noteq> Null \<longrightarrow> traverse collect_names u n \<noteq> None"
  "traverse_children collect_names ty u xs \<noteq> None"
proof (induction u n and ty u xs rule: traverse_induct[where cb=collect_names])
  case (Arr s xs)
  have "\<exists>s1. observe collect_names s (Arr xs) = Some (s1, Undef)"
    by (auto simp: observe_def collect_names_def split: option.splits node.splits)
  then obtain s1 where o: "observe collect_names s (Arr xs) = Some (s1, Undef)" by blast
  then show ?case using Arr.IH[OF o] by (auto split: option.splits)
next
  case (Other s v)
  then show ?case
    by (cases v) (auto simp: observe_def collect_names_def split: option.splits node.splits)
next
  case (Nil ty s)
  then show ?case by simp
next
  case (Cons ty s x xs)
  show ?case
  proof (cases "visited ty x")
    case True
    then have "x \<noteq> Undef \<and> x \<noteq> Null" by auto
    then obtain s1 x1 sub where t: "traverse collect_names s x = Some (s1, x1, sub)"
      using Cons.IH(1)[OF True] by auto
    have nf: "sub \<noteq> Bool False" using traverse_never_false(1)[OF t] .
    show ?thesis using True t nf Cons.IH(2)[OF True t nf]
      by (auto simp del: visited_def split: option.splits)
  next
    case False
    then show ?thesis using Cons.IH(3)[OF False]
      by (auto simp del: visited_def split: option.splits)
  qed
qed

lemma holds_map_snd:
  "holds (map (\<lambda>(k, b). (k, f k b)) l) k = (\<exists>b. map_of l k = Some b \<and> f k b)"
  by (auto simp: holds_def map_of_map_snd)

text \<open>
  \<^bold>\<open>Claim C2\<close>, as amended. At a control-flow node, names are collected only when the
  node is a \<^verbatim>\<open>call\<close> (line 264), and then from \<^verbatim>\<open>node.slice(2, 4)\<close>, the list of
  arguments, not from the callee. At a \<^verbatim>\<open>new\<close>, \<^verbatim>\<open>throw\<close>, \<^verbatim>\<open>label\<close> or
  \<^verbatim>\<open>debugger\<close> node nothing is collected and every binding is dead afterwards. At a
  \<^verbatim>\<open>call\<close> node the bindings live afterwards are those that were live, do not depend on a
  global and are named in the arguments; the keys of \<^verbatim>\<open>isLive\<close> and the tables do not
  change. The collection returns for every node that is an array. The names looked up (line 290) are the keys of \<^verbatim>\<open>isLive\<close>; they are taken
  to be plain, since for a key such as \<^verbatim>\<open>toString\<close> the source reads the inherited
  member of \<^verbatim>\<open>dependsOnAGlobal\<close> as a set flag.
\<close>

theorem control_flow_kills:
  assumes "list_all plain (map fst isLive)"
  shows
  "(type \<in> set CONTROL_FLOW_NODES \<and> type \<noteq> ''call'' \<longrightarrow>
      checkForMutations (isLive, e) node type =
        Some ((map (\<lambda>(varName, b). (varName, False)) isLive, e), Undef))
   \<and> (js_slice node 2 4 = Some args \<and> traverse collect_names [] args = Some (used, n1, r) \<longrightarrow>
      (\<exists>isLive1.
         checkForMutations (isLive, e) node ''call'' = Some ((isLive1, e), Undef) \<and>
         map fst isLive1 = map fst isLive \<and>
         (\<forall>v. holds isLive1 v =
            (holds isLive v \<and> \<not> holds (dependsOnAGlobal e) v \<and> v \<in> set used))))
   \<and> (\<exists>args used n1 r. js_slice (Arr xs) 2 4 = Some args \<and>
         traverse collect_names [] args = Some (used, n1, r))"
proof (intro conjI impI)
  have "traverse collect_names [] (Arr (take 2 (drop 2 xs))) \<noteq> None"
    using collect_names_total(1)[of "Arr (take 2 (drop 2 xs))" "[]"] by simp
  then show "\<exists>args used n1 r. js_slice (Arr xs) 2 4 = Some args \<and>
         traverse collect_names [] args = Some (used, n1, r)"
    by auto
next
  assume "type \<in> set CONTROL_FLOW_NODES \<and> type \<noteq> ''call''"
  then show "checkForMutations (isLive, e) node type =
        Some ((map (\<lambda>(varName, b). (varName, False)) isLive, e), Undef)"
    using check_control_flow_other by blast
next
  assume a: "js_slice node 2 4 = Some args \<and> traverse collect_names [] args = Some (used, n1, r)"
  let ?l = "map (\<lambda>(varName, b).
                    (varName, b \<and> \<not> holds (dependsOnAGlobal e) varName \<and> varName \<in> set used))
                  isLive"
  have 1: "checkForMutations (isLive, e) node ''call'' = Some ((?l, e), Undef)"
    using check_call a by blast
  have 2: "map fst ?l = map fst isLive" by (induction isLive) auto
  have 3: "\<forall>v. holds ?l v =
            (holds isLive v \<and> \<not> holds (dependsOnAGlobal e) v \<and> v \<in> set used)"
    using holds_map_snd[where f = "\<lambda>varName b. b \<and> \<not> holds (dependsOnAGlobal e) varName \<and> varName \<in> set used"
        and l = isLive]
    by (auto simp: holds_def)
  show "\<exists>isLive1.
         checkForMutations (isLive, e) node ''call'' = Some ((isLive1, e), Undef) \<and>
         map fst isLive1 = map fst isLive \<and>
         (\<forall>v. holds isLive1 v =
            (holds isLive v \<and> \<not> holds (dependsOnAGlobal e) v \<and> v \<in> set used))"
    using 1 2 3 by blast
qed

definition empty_eliminator :: eliminator where
  "empty_eliminator =
     \<lparr>body = Arr [], isLocal = [], isSingleDef = [], useCount = [],
      usesOnlySimpleNodes = [], dependsOnAGlobal = [], depsMutatedInLiveRange = [],
      initialValue = [], affects = []\<rparr>"

theorem control_flow_kills_witness:
  "list_all plain (map fst [(''a'', True)])
   \<and> list_all plain (map fst [(''a'', True), (''b'', True)])
   \<and> ''throw'' \<in> set CONTROL_FLOW_NODES \<and> ''throw'' \<noteq> ''call''
   \<and> checkForMutations ([(''a'', True)], empty_eliminator)
         (Arr [Str ''throw'', Arr [Str ''name'', Str ''a'']]) ''throw''
       = Some (([(''a'', False)], empty_eliminator), Undef)
   \<and> js_slice (Arr [Str ''call'', Arr [Str ''name'', Str ''f''], Arr [Arr [Str ''name'', Str ''a'']]]) 2 4
       = Some (Arr [Arr [Arr [Str ''name'', Str ''a'']]])
   \<and> traverse collect_names [] (Arr [Arr [Arr [Str ''name'', Str ''a'']]])
       = Some ([''a''], Arr [Arr [Arr [Str ''name'', Str ''a'']]], Undef)
   \<and> checkForMutations ([(''a'', True), (''b'', True)], empty_eliminator)
         (Arr [Str ''call'', Arr [Str ''name'', Str ''f''], Arr [Arr [Str ''name'', Str ''a'']]])
         ''call''
       = Some (([(''a'', True), (''b'', False)], empty_eliminator), Undef)"
proof -
  have c: "''throw'' \<in> set CONTROL_FLOW_NODES \<and> ''throw'' \<noteq> ''call''"
    by (simp add: CONTROL_FLOW_NODES_def)
  have s: "js_slice (Arr [Str ''call'', Arr [Str ''name'', Str ''f''], Arr [Arr [Str ''name'', Str ''a'']]]) 2 4
       = Some (Arr [Arr [Arr [Str ''name'', Str ''a'']]])"
    by simp
  have t: "traverse collect_names [] (Arr [Arr [Arr [Str ''name'', Str ''a'']]])
       = Some ([''a''], Arr [Arr [Arr [Str ''name'', Str ''a'']]], Undef)"
    by (simp add: observe_def collect_names_def add_key_def)
  have k: "checkForMutations ([(''a'', True), (''b'', True)], empty_eliminator)
         (Arr [Str ''call'', Arr [Str ''name'', Str ''f''], Arr [Arr [Str ''name'', Str ''a'']]])
         ''call''
       = Some (([(''a'', True), (''b'', False)], empty_eliminator), Undef)"
    by (simp add: checkForMutations_def observe_def collect_names_def add_key_def
        CONTROL_FLOW_NODES_def holds_def empty_eliminator_def)
  have p1: "list_all plain (map fst [(''a'', True)])"
    by (simp add: plain_def Object_prototype_def)
  have p2: "list_all plain (map fst [(''a'', True), (''b'', True)])"
    by (simp add: plain_def Object_prototype_def)
  from control_flow_kills[OF p1, where type = "''throw''"
      and e = empty_eliminator and node = "Arr [Str ''throw'', Arr [Str ''name'', Str ''a'']]"
      and args = Undef and used = "[]" and ?n1.0 = Undef and r = Undef]
    control_flow_kills[OF p2, where type = "''call''" and e = empty_eliminator
      and node = "Arr [Str ''call'', Arr [Str ''name'', Str ''f''], Arr [Arr [Str ''name'', Str ''a'']]]"
      and args = "Arr [Arr [Arr [Str ''name'', Str ''a'']]]" and used = "[''a'']"
      and ?n1.0 = "Arr [Arr [Arr [Str ''name'', Str ''a'']]]" and r = Undef]
    c s t k p1 p2
  show ?thesis by simp
qed

text \<open>
  The claim as stated fails: the binding \<open>a\<close> is live, depends on no global and is named
  inside the node \<^verbatim>\<open>throw a\<close>, and is dead after it; and so it is after the call
  \<^verbatim>\<open>a()\<close>, where it is named in the callee.
\<close>

theorem control_flow_counterexample:
  "holds [(''a'', True)] ''a'' \<and> \<not> holds (dependsOnAGlobal empty_eliminator) ''a''
   \<and> checkForMutations ([(''a'', True)], empty_eliminator)
         (Arr [Str ''throw'', Arr [Str ''name'', Str ''a'']]) ''throw''
       = Some (([(''a'', False)], empty_eliminator), Undef)
   \<and> \<not> holds [(''a'', False)] ''a''
   \<and> checkForMutations ([(''a'', True)], empty_eliminator)
         (Arr [Str ''call'', Arr [Str ''name'', Str ''a''], Arr []]) ''call''
       = Some (([(''a'', False)], empty_eliminator), Undef)"
  by (simp add: checkForMutations_def observe_def collect_names_def add_key_def
      CONTROL_FLOW_NODES_def holds_def empty_eliminator_def)


subsection \<open>Assignments through a compound left-hand side\<close>

lemma name_key_differs: "js_join [Str ''name'', Str a] \<noteq> a"
proof
  assume "js_join [Str ''name'', Str a] = a"
  then have "length (js_join [Str ''name'', Str a]) = length a" by simp
  then show False by simp
qed

text \<open>
  \<^bold>\<open>Claim C10\<close>. In the scan, the \<^verbatim>\<open>assign\<close> branch (lines 188 to 191) reads
  \<^verbatim>\<open>node[2][1]\<close> as the name. For a target such as \<^verbatim>\<open>a[i]\<close> or \<^verbatim>\<open>a.p\<close>, whose
  second field is the node \<^verbatim>\<open>['name', 'a']\<close>, this is the key \<^verbatim>\<open>"name,a"\<close>, so the
  single-def entry of \<open>a\<close> is as before; for the target \<^verbatim>\<open>['name', 'a']\<close> the entry of
  \<open>a\<close> is not true afterwards. The live-range analyzer walks the same target down to
  \<open>a\<close> and afterwards no binding in \<^verbatim>\<open>affects[a]\<close> is live.
\<close>

theorem compound_assignment:
  assumes "k \<noteq> ''name''"
  shows "(\<exists>e1. scan_callback e
              (Arr [Str ''assign'', op, Arr (Str k # Arr [Str ''name'', Str a] # rest), v])
              ''assign'' = Some (e1, Undef)
            \<and> map_of (isSingleDef e1) a = map_of (isSingleDef e) a)
       \<and> (\<exists>e1. scan_callback e (Arr [Str ''assign'', op, Arr [Str ''name'', Str a], v]) ''assign''
                = Some (e1, Undef) \<and> \<not> holds (isSingleDef e1) a)
       \<and> (\<exists>isLive1. checkForMutations (isLive, e)
              (Arr [Str ''assign'', op, Arr (Str k # Arr [Str ''name'', Str a] # rest), v])
              ''assign'' = Some ((isLive1, e), Undef)
            \<and> (\<forall>w \<in> set (targets_of e a). \<not> holds isLive1 w))"
proof (intro conjI)
  show "\<exists>e1. scan_callback e
              (Arr [Str ''assign'', op, Arr (Str k # Arr [Str ''name'', Str a] # rest), v])
              ''assign'' = Some (e1, Undef)
            \<and> map_of (isSingleDef e1) a = map_of (isSingleDef e) a"
    using name_key_differs[of a]
    by (auto simp: scan_callback_def update_conv' Let_def simp del: js_join.simps)
  show "\<exists>e1. scan_callback e (Arr [Str ''assign'', op, Arr [Str ''name'', Str a], v]) ''assign''
                = Some (e1, Undef) \<and> \<not> holds (isSingleDef e1) a"
    by (auto simp: scan_callback_def holds_def update_conv')
  let ?node = "Arr [Str ''assign'', op, Arr (Str k # Arr [Str ''name'', Str a] # rest), v]"
  obtain used n1 r where
    t: "traverse collect_names [] (Arr [Arr (Str k # Arr [Str ''name'', Str a] # rest), v]) =
          Some (used, n1, r)"
    using collect_names_total(1)[of "Arr [Arr (Str k # Arr [Str ''name'', Str a] # rest), v]" "[]"]
    by auto
  let ?l1 = "kill_affected e a isLive"
  let ?l2 = "map (\<lambda>(varName, b).
                (varName, if holds (dependsOnAGlobal e) varName \<and> varName \<notin> set used
                          then False else b)) ?l1"
  have c: "checkForMutations (isLive, e) ?node ''assign'' = Some ((?l2, e), Undef)"
    using assms t
    by (simp add: checkForMutations_def CONTROL_FLOW_NODES_def del: traverse.simps)
  have dead: "map_of ?l1 w \<noteq> Some True" if "w \<in> set (targets_of e a)" for w
    using holds_kill_affected[of e a isLive w] that by (simp add: holds_def)
  have d: "\<forall>w \<in> set (targets_of e a). \<not> holds ?l2 w"
    using holds_map_snd[where f = "\<lambda>varName b. if holds (dependsOnAGlobal e) varName \<and> varName \<notin> set used
                          then False else b" and l = ?l1] dead
    by (auto split: if_splits)
  show "\<exists>isLive1. checkForMutations (isLive, e) ?node ''assign'' = Some ((isLive1, e), Undef)
            \<and> (\<forall>w \<in> set (targets_of e a). \<not> holds isLive1 w)"
    using c d by blast
qed


definition sample_eliminator :: eliminator where
  "sample_eliminator =
     \<lparr>body = Arr [], isLocal = [(''a'', True), (''b'', True)],
      isSingleDef = [(''a'', True), (''b'', True)], useCount = [(''a'', 1), (''b'', 0)],
      usesOnlySimpleNodes = [(''b'', True)], dependsOnAGlobal = [], depsMutatedInLiveRange = [],
      initialValue = [], affects = [(''a'', [''b''])]\<rparr>"

theorem compound_assignment_witness:
  "''sub'' \<noteq> ''name''
   \<and> scan_callback sample_eliminator
        (Arr [Str ''assign'', Bool True,
              Arr [Str ''sub'', Arr [Str ''name'', Str ''a''], Arr [Str ''num'', Num 0]],
              Arr [Str ''num'', Num 1]]) ''assign'' = Some (sample_eliminator, Undef)
   \<and> holds (isSingleDef sample_eliminator) ''a''
   \<and> set (targets_of sample_eliminator ''a'') = {''b''}
   \<and> checkForMutations ([(''b'', True)], sample_eliminator)
        (Arr [Str ''assign'', Bool True,
              Arr [Str ''sub'', Arr [Str ''name'', Str ''a''], Arr [Str ''num'', Num 0]],
              Arr [Str ''num'', Num 1]]) ''assign''
       = Some (([(''b'', False)], sample_eliminator), Undef)"
proof -
  have k: "''sub'' \<noteq> ''name''" by simp
  have 1: "scan_callback sample_eliminator
        (Arr [Str ''assign'', Bool True,
              Arr [Str ''sub'', Arr [Str ''name'', Str ''a''], Arr [Str ''num'', Num 0]],
              Arr [Str ''num'', Num 1]]) ''assign'' = Some (sample_eliminator, Undef)"
    by (simp add: scan_callback_def holds_def sample_eliminator_def)
  have 2: "holds (isSingleDef sample_eliminator) ''a''"
    by (simp add: holds_def sample_eliminator_def)
  have 3: "set (targets_of sample_eliminator ''a'') = {''b''}"
    by (simp add: targets_of_def sample_eliminator_def)
  have 4: "checkForMutations ([(''b'', True)], sample_eliminator)
        (Arr [Str ''assign'', Bool True,
              Arr [Str ''sub'', Arr [Str ''name'', Str ''a''], Arr [Str ''num'', Num 0]],
              Arr [Str ''num'', Num 1]]) ''assign''
       = Some (([(''b'', False)], sample_eliminator), Undef)"
    by (simp add: checkForMutations_def observe_def collect_names_def add_key_def
        CONTROL_FLOW_NODES_def kill_affected_def kill_def targets_of_def holds_def
        sample_eliminator_def)
  from compound_assignment[OF k, where e = sample_eliminator and a = "''a''"
      and isLive = "[(''b'', True)]"] 1 2 3 4
  show ?thesis by simp
qed

subsection \<open>Loops\<close>



subsection \<open>The number of eliminated variables\<close>

text \<open>
  \<^bold>\<open>Claim C3\<close> (the bindings eliminated and their number). \<^verbatim>\<open>run\<close> counts the names
  it selects (lines 151 to 156), the keys of \<^verbatim>\<open>isSingleDef\<close> that
  \<^verbatim>\<open>isEliminateable\<close> accepts, and returns the count as the number of variables
  eliminated (line 142); \<^verbatim>\<open>removeDeclarations\<close> is to remove all their declarations
  (line 386). Its callback returns the \<^verbatim>\<open>var\<close> node when the node keeps a declaration
  (line 394), and a walk whose callback returns a node does not go into the children of
  that node (line 95). So a declaration inside the initial value of a declaration that is
  kept is never reached. In \<^verbatim>\<open>function g() { var f = function () { var b = 1; }; }\<close>
  the binding \<open>b\<close> is single-def, its initial value uses simple nodes only and its use
  count is 0: it is the one name selected and \<^verbatim>\<open>run\<close> returns 1, but the body is as
  before, with the declaration of \<open>b\<close> in it.
\<close>

theorem counts_declaration_it_keeps:
  "map_option (\<lambda>e. filter (isEliminateable e) (map fst (isSingleDef e)))
     (Option.bind
        (Eliminator
           (Arr [Str ''defun'', Str ''g'', Arr [],
                 Arr [Arr [Str ''var'',
                           Arr [Arr [Str ''f'',
                                     Arr [Str ''function'', Null, Arr [],
                                          Arr [Arr [Str ''var'',
                                                    Arr [Arr [Str ''b'',
                                                              Arr [Str ''num'', Num 1]]]]]]]]]]]))
        analyses) = Some [''b'']
   \<and> optimize_function
       (Arr [Str ''defun'', Str ''g'', Arr [],
             Arr [Arr [Str ''var'',
                       Arr [Arr [Str ''f'',
                                 Arr [Str ''function'', Null, Arr [],
                                      Arr [Arr [Str ''var'',
                                                Arr [Arr [Str ''b'',
                                                          Arr [Str ''num'', Num 1]]]]]]]]]]])
     = Some (Arr [Arr [Str ''var'',
                       Arr [Arr [Str ''f'',
                                 Arr [Str ''function'', Null, Arr [],
                                      Arr [Arr [Str ''var'',
                                                Arr [Arr [Str ''b'',
                                                          Arr [Str ''num'', Num 1]]]]]]]]]], 1)"
  by code_simp

subsection \<open>Two inputs on which the optimizer goes wrong\<close>

text \<open>
  \<^bold>\<open>Claim C6\<close> (increments and single-def). The scan clears the single-def entry at an
  \<^verbatim>\<open>assign\<close> node only; it has no branch for \<^verbatim>\<open>unary-prefix\<close> and
  \<^verbatim>\<open>unary-postfix\<close>, which the live-range analyzer (line 270) does treat as writes. For
  \<^verbatim>\<open>var a = 1; a++;\<close> the binding \<open>a\<close> is single-def after the scan, and the optimizer
  eliminates it, leaving \<^verbatim>\<open>1++\<close>.
\<close>

theorem increment_stays_single_def:
  "map_option isSingleDef
     (Option.bind
        (Eliminator
           (Arr [Str ''defun'', Str ''f'', Arr [],
                 Arr [Arr [Str ''var'', Arr [Arr [Str ''a'', Arr [Str ''num'', Num 1]]]],
                      Arr [Str ''stat'',
                           Arr [Str ''unary-postfix'', Str ''++'',
                                Arr [Str ''name'', Str ''a'']]]]]))
        calculateBasicVarStats) = Some [(''a'', True)]
   \<and> optimize_function
       (Arr [Str ''defun'', Str ''f'', Arr [],
             Arr [Arr [Str ''var'', Arr [Arr [Str ''a'', Arr [Str ''num'', Num 1]]]],
                  Arr [Str ''stat'',
                       Arr [Str ''unary-postfix'', Str ''++'', Arr [Str ''name'', Str ''a'']]]]])
     = Some (Arr [Arr [Str ''toplevel'', Arr []],
                  Arr [Str ''stat'',
                       Arr [Str ''unary-postfix'', Str ''++'', Arr [Str ''num'', Num 1]]]], 1)"
  by code_simp

text \<open>
  \<^bold>\<open>Claim C1\<close> (the result of the function). In \<^verbatim>\<open>traverseChild\<close> (lines 314 to 324)
  the bindings saved before a child are restored after it unless they are found dead in
  \<^verbatim>\<open>isLive\<close>; a loop inside the child has replaced \<^verbatim>\<open>isLive\<close> by an empty object, so
  nothing is found dead and every binding that was live before an \<^verbatim>\<open>if\<close>, \<^verbatim>\<open>switch\<close> or
  \<^verbatim>\<open>try\<close> is live after it, whatever the loop assigns. For
  \<^verbatim>\<open>function f(x, c, d) { var a = x; if (c) { while (d) { x = 5; d = 0; } } return a; }\<close>
  the optimizer returns the body
  \<^verbatim>\<open>if (c) { while (d) { x = 5; d = 0; } } return x;\<close>:
  \<^verbatim>\<open>f(1, 1, 1)\<close> is 1 before and 5 after.
\<close>

theorem optimizer_changes_result:
  "optimize_function
     (Arr [Str ''defun'', Str ''f'', Arr [Str ''x'', Str ''c'', Str ''d''],
           Arr [Arr [Str ''var'', Arr [Arr [Str ''a'', Arr [Str ''name'', Str ''x'']]]],
                Arr [Str ''if'', Arr [Str ''name'', Str ''c''],
                     Arr [Str ''block'',
                          Arr [Arr [Str ''while'', Arr [Str ''name'', Str ''d''],
                                    Arr [Str ''block'',
                                         Arr [Arr [Str ''stat'',
                                                   Arr [Str ''assign'', Bool True,
                                                        Arr [Str ''name'', Str ''x''],
                                                        Arr [Str ''num'', Num 5]]],
                                              Arr [Str ''stat'',
                                                   Arr [Str ''assign'', Bool True,
                                                        Arr [Str ''name'', Str ''d''],
                                                        Arr [Str ''num'', Num 0]]]]]]]],
                     Undef],
                Arr [Str ''return'', Arr [Str ''name'', Str ''a'']]]])
   = Some (Arr [Arr [Str ''toplevel'', Arr []],
                Arr [Str ''if'', Arr [Str ''name'', Str ''c''],
                     Arr [Str ''block'',
                          Arr [Arr [Str ''while'', Arr [Str ''name'', Str ''d''],
                                    Arr [Str ''block'',
                                         Arr [Arr [Str ''stat'',
                                                   Arr [Str ''assign'', Bool True,
                                                        Arr [Str ''name'', Str ''x''],
                                                        Arr [Str ''num'', Num 5]]],
                                              Arr [Str ''stat'',
                                                   Arr [Str ''assign'', Bool True,
                                                        Arr [Str ''name'', Str ''d''],
                                                        Arr [Str ''num'', Num 0]]]]]]]],
                     Undef],
                Arr [Str ''return'', Arr [Str ''name'', Str ''x'']]], 1)"
  by code_simp

subsection \<open>The transitive closure\<close>

text \<open>The graph of \<^verbatim>\<open>affects\<close>: an edge from \<open>s\<close> to \<open>t\<close> when \<open>t\<close> is a key of
  \<^verbatim>\<open>affects[s]\<close>.\<close>

definition affects_graph :: "eliminator \<Rightarrow> (string \<times> string) set" where
  "affects_graph e = {(s, t). t \<in> set (targets_of e s)}"


lemma targets_of_update:
  "targets_of (e\<lparr>affects := AList.update s ts (affects e)\<rparr>) x =
     (if x = s then ts else targets_of e x)"
  by (simp add: targets_of_def update_conv')

lemma targets_of_dG [simp]:
  "targets_of (e\<lparr>dependsOnAGlobal := d\<rparr>) x = targets_of e x"
  by (simp add: targets_of_def)












text \<open>Every edge whose source is not local has its target flagged.\<close>

definition direct_flagged :: "eliminator \<Rightarrow> bool" where
  "direct_flagged e \<longleftrightarrow>
     (\<forall>p \<in> affects_graph e. \<not> holds (isLocal e) (fst p) \<longrightarrow> holds (dependsOnAGlobal e) (snd p))"













definition flagged_local :: "bool table \<Rightarrow> eliminator \<Rightarrow> bool" where
  "flagged_local l e \<longleftrightarrow> direct_flagged e \<and> isLocal e = l"

lemma flagged_simple [simp]:
  "flagged_local l (e\<lparr>usesOnlySimpleNodes := u\<rparr>) = flagged_local l e"
  by (simp add: flagged_local_def direct_flagged_def affects_graph_def targets_of_def)










section \<open>Collapsing the replacement values\<close>

text \<open>
  The names a tree refers to: the second fields of its \<^verbatim>\<open>['name', x]\<close> nodes.
\<close>

fun names_of :: "node \<Rightarrow> string set" where
  "names_of (Arr xs) =
     (case xs of [Str t, Str x] \<Rightarrow> if t = ''name'' then {x} else {} | ys \<Rightarrow> {})
     \<union> (\<Union>c \<in> set xs. names_of c)"
| "names_of v = {}"

text \<open>
  The trees \<^verbatim>\<open>collapseValues\<close> is given are the initial values of the eliminated
  variables: expressions. In an expression every node is an array that starts with its
  type, a string; a \<^verbatim>\<open>name\<close> node carries one string; every array below a node is a
  node again. No expression has the type \<^verbatim>\<open>for-in\<close>, so the walker visits every node
  of an expression.
\<close>

fun expr :: "node \<Rightarrow> bool" where
  "expr (Arr (Str t # rest)) =
     (if t = ''name'' then (case rest of [Str x] \<Rightarrow> True | ys \<Rightarrow> False)
      else t \<noteq> ''for-in'' \<and> (\<forall>c \<in> set rest. is_child c \<longrightarrow> expr c))"
| "expr v = False"

text \<open>
  The graph of references among the keys of a table of values: an edge from \<^verbatim>\<open>k\<close> to
  \<^verbatim>\<open>x\<close> when the value of \<^verbatim>\<open>k\<close> refers to \<^verbatim>\<open>x\<close>. In the walk of the
  value of \<^verbatim>\<open>k\<close> the names of \<^verbatim>\<open>refs\<close> are replaced, and the result refers to the
  names of \<^verbatim>\<open>expanded\<close> at most.
\<close>

definition value_of :: "node table \<Rightarrow> string \<Rightarrow> node" where
  "value_of values x = (case map_of values x of None \<Rightarrow> Undef | Some v \<Rightarrow> v)"

definition refs :: "node table \<Rightarrow> string \<Rightarrow> node \<Rightarrow> string set" where
  "refs values k n = {x \<in> names_of n. has values x \<and> x \<noteq> k}"

definition expanded :: "node table \<Rightarrow> string \<Rightarrow> node \<Rightarrow> string set" where
  "expanded values k n =
     {x \<in> names_of n. \<not> has values x \<or> x = k} \<union> (\<Union>x \<in> refs values k n. names_of (value_of values x))"

definition ref_graph :: "node table \<Rightarrow> (string \<times> string) set" where
  "ref_graph values = {(k, x). has values k \<and> has values x \<and> x \<in> names_of (value_of values k)}"

definition all_expr :: "node table \<Rightarrow> bool" where
  "all_expr values \<longleftrightarrow> (\<forall>k v. map_of values k = Some v \<longrightarrow> expr v)"

subsection \<open>One walk\<close>

lemma expr_Arr: "expr n \<Longrightarrow> \<exists>t rest. n = Arr (Str t # rest)"
  by (cases n rule: expr.cases) auto

lemma expr_truthy: "expr n \<Longrightarrow> js_truthy n \<and> is_child n"
  by (cases n rule: expr.cases) auto

lemma names_of_child: "c \<in> set xs \<Longrightarrow> names_of c \<subseteq> names_of (Arr xs)"
  by auto

lemma refs_child: "c \<in> set xs \<Longrightarrow> refs values k c \<subseteq> refs values k (Arr xs)"
  using names_of_child[of c xs] by (auto simp: refs_def)

lemma expanded_child: "c \<in> set xs \<Longrightarrow> expanded values k c \<subseteq> expanded values k (Arr xs)"
  using names_of_child[of c xs] refs_child[of c xs "values" k]
  unfolding expanded_def by blast

lemma collapse_name:
  assumes "all_expr values"
  shows "collapse_callback values k inc (Arr [Str ''name'', Str x]) ''name'' =
           (if has values x \<and> x \<noteq> k then Some (True, value_of values x) else Some (inc, Undef))"
  by (auto simp: collapse_callback_def has_def value_of_def split: option.splits)

lemma collapse_other:
  "t \<noteq> ''name'' \<Longrightarrow> collapse_callback values k inc n t = Some (inc, Undef)"
  by (simp add: collapse_callback_def)

lemma not_skipped_expr: "t \<noteq> ''for-in'' \<Longrightarrow> visited (Str t) c = is_child c"
  by (cases "(Str t, c)" rule: skipped_var.cases) auto

lemma non_child_names: "\<not> is_child x \<Longrightarrow> names_of x = {}"
  by (cases x rule: is_child.cases) auto

lemma names_of_node:
  "t \<noteq> ''name'' \<Longrightarrow> names_of (Arr (Str t # rest)) = (\<Union>c \<in> set rest. names_of c)"
  by (auto split: list.splits node.splits)

definition child_ok :: "node table \<Rightarrow> string \<Rightarrow> node \<Rightarrow> node \<Rightarrow> bool" where
  "child_ok values k x z =
     (if is_child x then expr z \<and> names_of z \<subseteq> expanded values k x else z = x)"

lemma collapse_traverse:
  assumes ae: "all_expr values"
  shows "expr n \<Longrightarrow>
           \<exists>n1 res. traverse (collapse_callback values k) inc n =
                      Some (inc \<or> refs values k n \<noteq> {}, n1, res)
             \<and> expr (if js_truthy res then res else n1)
             \<and> names_of (if js_truthy res then res else n1) \<subseteq> expanded values k n"
    and "(\<forall>c \<in> set xs. is_child c \<longrightarrow> expr c) \<Longrightarrow> (\<exists>t. ty = Str t \<and> t \<noteq> ''for-in'') \<Longrightarrow>
           \<exists>zs. traverse_children (collapse_callback values k) ty inc xs =
                  Some (inc \<or> (\<exists>c \<in> set xs. refs values k c \<noteq> {}), zs, Undef)
             \<and> list_all2 (child_ok values k) xs zs"
proof (induction inc n and ty inc xs rule: traverse_induct[where cb = "collapse_callback values k"])
  case (Arr inc xs)
  from expr_Arr[OF Arr.prems] obtain t rest where xs: "xs = Str t # rest" by auto
  show ?case
  proof (cases "t = ''name''")
    case True
    with Arr.prems xs obtain x where rest: "rest = [Str x]"
      by (auto split: list.splits node.splits)
    show ?thesis
    proof (cases "has values x \<and> x \<noteq> k")
      case h: True
      then obtain v where v: "map_of values x = Some v" by (auto simp: has_def)
      then have ev: "expr v" using ae by (auto simp: all_expr_def)
      have vo: "value_of values x = v" using v by (simp add: value_of_def)
      have "refs values k (Arr xs) = {x}" using h xs rest True by (auto simp: refs_def)
      moreover have "names_of v \<subseteq> expanded values k (Arr xs)"
        using h xs rest True vo by (auto simp: expanded_def refs_def)
      ultimately show ?thesis
        using xs rest True h collapse_name[OF ae, of k inc x] vo ev expr_truthy[OF ev]
        by simp
    next
      case h: False
      have r: "refs values k (Arr xs) = {}" using h xs rest True by (auto simp: refs_def)
      have e: "names_of (Arr xs) \<subseteq> expanded values k (Arr xs)"
        using h xs rest True by (auto simp: expanded_def)
      have "traverse (collapse_callback values k) inc (Arr xs) = Some (inc, Arr xs, Undef)"
        using xs rest True h collapse_name[OF ae, of k inc x] by auto
      then show ?thesis using r e Arr.prems by simp
    qed
  next
    case False
    have o: "observe (collapse_callback values k) inc (Arr xs) = Some (inc, Undef)"
      using xs False by (simp add: collapse_other)
    have c: "\<forall>c \<in> set xs. is_child c \<longrightarrow> expr c" using Arr.prems xs False by auto
    have "\<exists>zs. traverse_children (collapse_callback values k) (Str t) inc xs =
                  Some (inc \<or> (\<exists>c \<in> set xs. refs values k c \<noteq> {}), zs, Undef)
             \<and> list_all2 (child_ok values k) xs zs"
      using Arr.IH[OF o _ c] Arr.prems xs False by auto
    then obtain zs where
      t: "traverse_children (collapse_callback values k) (Str t) inc xs =
            Some (inc \<or> (\<exists>c \<in> set xs. refs values k c \<noteq> {}), zs, Undef)"
      and l: "list_all2 (child_ok values k) xs zs" by blast
    from l xs obtain zs' where zs: "zs = Str t # zs'"
      and l': "list_all2 (child_ok values k) rest zs'"
      by (auto simp: list_all2_Cons1 child_ok_def)
    have r: "(\<exists>c \<in> set xs. refs values k c \<noteq> {}) = (refs values k (Arr xs) \<noteq> {})"
    proof -
      have "names_of (Arr xs) = (\<Union>c \<in> set xs. names_of c)"
        using xs names_of_node[OF False, of rest] by simp
      then show ?thesis unfolding refs_def by blast
    qed
    have each: "(is_child z \<longrightarrow> expr z) \<and> names_of z \<subseteq> expanded values k (Arr xs)"
      if "z \<in> set zs'" for z
    proof -
      from that obtain i where i: "i < length zs'" "z = zs' ! i"
        by (auto simp: in_set_conv_nth)
      have "rest ! i \<in> set rest" "child_ok values k (rest ! i) z"
        using l' i by (auto simp: list_all2_conv_all_nth)
      then obtain x where x: "x \<in> set rest" "child_ok values k x z" by blast
      have sub: "expanded values k x \<subseteq> expanded values k (Arr xs)"
        using expanded_child[of x xs "values" k] x(1) xs by simp
      show ?thesis
      proof (cases "is_child x")
        case True
        then show ?thesis using x(2) sub by (auto simp: child_ok_def)
      next
        case False
        then show ?thesis using x(2) non_child_names[of x] by (auto simp: child_ok_def)
      qed
    qed
    have ex: "expr (Arr zs)" using zs False each Arr.prems xs by auto
    have nm: "names_of (Arr zs) \<subseteq> expanded values k (Arr xs)"
      using each unfolding zs names_of_node[OF False] by blast
    have ty: "(case xs of [] \<Rightarrow> Undef | x # ys \<Rightarrow> x) = Str t" using xs by simp
    have "traverse (collapse_callback values k) inc (Arr xs) =
            Some (inc \<or> refs values k (Arr xs) \<noteq> {}, Arr zs, Undef)"
      using o t r by (simp add: ty)
    then show ?thesis using ex nm by simp
  qed
next
  case (Other inc v)
  have "\<forall>xs. v \<noteq> Arr xs" using Other.hyps by blast
  then show ?case using Other.prems by (cases v) auto
next
  case (Nil ty inc)
  then show ?case by simp
next
  case (Cons ty inc x xs)
  from Cons.prems(2) obtain t where ty: "ty = Str t" "t \<noteq> ''for-in''" by blast
  have vis: "visited ty x = is_child x" using ty not_skipped_expr by simp
  have c: "\<forall>c \<in> set xs. is_child c \<longrightarrow> expr c" using Cons.prems(1) by simp
  show ?case
  proof (cases "is_child x")
    case True
    then have v: "visited ty x" using vis by simp
    have ex: "expr x" using True Cons.prems(1) by simp
    from Cons.IH(1)[OF v ex] obtain n1 res where
      t: "traverse (collapse_callback values k) inc x =
            Some (inc \<or> refs values k x \<noteq> {}, n1, res)"
      and e1: "expr (if js_truthy res then res else n1)"
      and n1: "names_of (if js_truthy res then res else n1) \<subseteq> expanded values k x"
      by blast
    have nf: "res \<noteq> Bool False" using traverse_never_false(1)[OF t] .
    from Cons.IH(2)[OF v t nf c Cons.prems(2)] obtain zs where
      tc: "traverse_children (collapse_callback values k) ty (inc \<or> refs values k x \<noteq> {}) xs =
             Some ((inc \<or> refs values k x \<noteq> {}) \<or> (\<exists>c \<in> set xs. refs values k c \<noteq> {}), zs, Undef)"
      and l: "list_all2 (child_ok values k) xs zs" by blast
    have "traverse_children (collapse_callback values k) ty inc (x # xs) =
            Some (inc \<or> (\<exists>c \<in> set (x # xs). refs values k c \<noteq> {}),
                  (if js_truthy res then res else n1) # zs, Undef)"
      using v t nf tc by (auto simp del: visited_def)
    moreover have "child_ok values k x (if js_truthy res then res else n1)"
      using True e1 n1 by (simp add: child_ok_def)
    ultimately show ?thesis using l by (simp del: visited_def)
  next
    case False
    then have v: "\<not> visited ty x" using vis by simp
    from Cons.IH(3)[OF v c Cons.prems(2)] obtain zs where
      tc: "traverse_children (collapse_callback values k) ty inc xs =
             Some (inc \<or> (\<exists>c \<in> set xs. refs values k c \<noteq> {}), zs, Undef)"
      and l: "list_all2 (child_ok values k) xs zs" by blast
    have "refs values k x = {}" using non_child_names[OF False] by (simp add: refs_def)
    then have "traverse_children (collapse_callback values k) ty inc (x # xs) =
            Some (inc \<or> (\<exists>c \<in> set (x # xs). refs values k c \<noteq> {}), x # zs, Undef)"
      using v tc by (auto simp del: visited_def)
    moreover have "child_ok values k x x" using False by (simp add: child_ok_def)
    ultimately show ?thesis using l by (simp del: visited_def)
  qed
qed

subsection \<open>One pass and the loop\<close>

text \<open>
  A rank decreases along every reference. The height of a key is the largest rank among
  the keys its value refers to, plus one; a pass that replaces a name lowers the height of
  the key it rewrites, and no pass raises a height, so the sum of the heights bounds the
  number of passes.
\<close>

definition key_refs :: "node table \<Rightarrow> string \<Rightarrow> string set" where
  "key_refs values k = {x \<in> names_of (value_of values k). has values x}"

definition ranked :: "(string \<Rightarrow> nat) \<Rightarrow> node table \<Rightarrow> bool" where
  "ranked \<rho> values \<longleftrightarrow> (\<forall>k x. has values k \<longrightarrow> x \<in> key_refs values k \<longrightarrow> \<rho> x < \<rho> k)"

definition height :: "(string \<Rightarrow> nat) \<Rightarrow> node table \<Rightarrow> string \<Rightarrow> nat" where
  "height \<rho> values k = Max (insert 0 ((\<lambda>x. Suc (\<rho> x)) ` key_refs values k))"

definition weight :: "(string \<Rightarrow> nat) \<Rightarrow> node table \<Rightarrow> nat" where
  "weight \<rho> values = sum (height \<rho> values) (set (map fst values))"

lemma has_keys: "has values x \<longleftrightarrow> x \<in> set (map fst values)"
  by (simp add: has_def map_of_eq_None_iff)

lemma finite_key_refs: "finite (key_refs values k)"
proof (rule finite_subset)
  show "key_refs values k \<subseteq> set (map fst values)"
    using has_keys by (auto simp: key_refs_def)
qed simp

lemma height_ge: "x \<in> key_refs values k \<Longrightarrow> Suc (\<rho> x) \<le> height \<rho> values k"
  unfolding height_def using finite_key_refs[of "values" k] by (intro Max_ge) auto

lemma height_less:
  assumes "0 < n" "\<And>x. x \<in> key_refs values k \<Longrightarrow> Suc (\<rho> x) < n"
  shows "height \<rho> values k < n"
  unfolding height_def using finite_key_refs[of "values" k] assms by (subst Max_less_iff) auto

lemma height_empty: "key_refs values k = {} \<Longrightarrow> height \<rho> values k = 0"
  by (simp add: height_def)

lemma collapse_one_step:
  assumes ae: "all_expr values" and rk: "ranked \<rho> values" and hk: "has values k"
  shows "\<exists>values'. collapse_one k (values, inc) = Some (values', inc \<or> key_refs values k \<noteq> {})
           \<and> all_expr values' \<and> ranked \<rho> values' \<and> map fst values' = map fst values
           \<and> (\<forall>j. height \<rho> values' j \<le> height \<rho> values j)
           \<and> (key_refs values k \<noteq> {} \<longrightarrow> height \<rho> values' k < height \<rho> values k)
           \<and> (\<forall>j. key_refs values j = {} \<longrightarrow> key_refs values' j = {})"
proof -
  from hk obtain T where T: "map_of values k = Some T" by (auto simp: has_def)
  have eT: "expr T" using ae T by (auto simp: all_expr_def)
  have vT: "value_of values k = T" using T by (simp add: value_of_def)
  have self: "k \<notin> key_refs values k" using rk hk by (auto simp: ranked_def)
  have rf: "refs values k T = key_refs values k"
    using self vT by (auto simp: refs_def key_refs_def)
  from collapse_traverse(1)[OF ae eT, of k inc] obtain n1 res where
    t: "traverse (collapse_callback values k) inc T = Some (inc \<or> key_refs values k \<noteq> {}, n1, res)"
    and en: "expr (if js_truthy res then res else n1)"
    and nn: "names_of (if js_truthy res then res else n1) \<subseteq> expanded values k T"
    unfolding rf by blast
  define new where "new = (if js_truthy res then res else n1)"
  define values' where "values' = AList.update k new values"
  have c: "collapse_one k (values, inc) = Some (values', inc \<or> key_refs values k \<noteq> {})"
    using T t by (simp add: collapse_one_def values'_def new_def)
  have m: "map_of values' = (map_of values)(k \<mapsto> new)"
    by (simp add: values'_def update_conv')
  have h: "has values' = has values" using hk by (auto simp: has_def m fun_eq_iff)
  have v: "value_of values' j = (if j = k then new else value_of values j)" for j
    by (simp add: value_of_def m)
  have other: "key_refs values' j = key_refs values j" if "j \<noteq> k" for j
    using that by (simp add: key_refs_def v h)
  have this_one: "\<exists>y \<in> key_refs values k. x \<in> key_refs values y" if "x \<in> key_refs values' k" for x
  proof -
    from that have x: "x \<in> names_of new" "has values x" by (auto simp: key_refs_def v h)
    from x(1) nn have "x \<in> expanded values k T" by (auto simp: new_def)
    then consider "x \<in> names_of T" "x = k"
      | y where "y \<in> refs values k T" "x \<in> names_of (value_of values y)"
      using x(2) by (auto simp: expanded_def)
    then show ?thesis
    proof cases
      case 1
      then have "k \<in> key_refs values k" using hk vT by (simp add: key_refs_def)
      with self show ?thesis by simp
    next
      case 2
      then show ?thesis using x(2) unfolding rf by (auto simp: key_refs_def)
    qed
  qed
  have e: "all_expr values'" using ae en by (auto simp: all_expr_def m new_def)
  have r: "ranked \<rho> values'"
    unfolding ranked_def
  proof (intro allI impI)
    fix j x assume j: "has values' j" "x \<in> key_refs values' j"
    show "\<rho> x < \<rho> j"
    proof (cases "j = k")
      case True
      with j this_one obtain y where y: "y \<in> key_refs values k" "x \<in> key_refs values y" by blast
      have "has values y" using y(1) by (simp add: key_refs_def)
      then have "\<rho> x < \<rho> y" "\<rho> y < \<rho> k" using rk y hk by (auto simp: ranked_def)
      then show ?thesis using True by simp
    next
      case False
      then show ?thesis using j rk other h by (auto simp: ranked_def)
    qed
  qed
  have k: "map fst values' = map fst values"
    using hk by (simp add: values'_def update_keys has_keys)
  have lt: "height \<rho> values' k < height \<rho> values k" if ne: "key_refs values k \<noteq> {}"
  proof (rule height_less)
    from ne obtain y where "y \<in> key_refs values k" by blast
    then show "0 < height \<rho> values k" using height_ge[of y "values" k \<rho>] by simp
  next
    fix x assume "x \<in> key_refs values' k"
    with this_one obtain y where y: "y \<in> key_refs values k" "x \<in> key_refs values y" by blast
    have "has values y" using y(1) by (simp add: key_refs_def)
    then have "\<rho> x < \<rho> y" using rk y by (auto simp: ranked_def)
    then show "Suc (\<rho> x) < height \<rho> values k" using height_ge[OF y(1), of \<rho>] by simp
  qed
  have em: "key_refs values' j = {}" if "key_refs values j = {}" for j
    using that other this_one by (cases "j = k") auto
  have le: "height \<rho> values' j \<le> height \<rho> values j" for j
  proof (cases "j = k")
    case True
    show ?thesis
    proof (cases "key_refs values k = {}")
      case e: True
      then show ?thesis using em True by (simp add: height_empty)
    next
      case False
      then show ?thesis using lt True by simp
    qed
  next
    case False
    then show ?thesis by (simp add: height_def other)
  qed
  show ?thesis using c e r k le lt em by blast
qed

lemma collapse_pass:
  assumes "all_expr values" "ranked \<rho> values" "set ks \<subseteq> set (map fst values)"
  shows "\<exists>values' inc'. for_each collapse_one ks (values, inc) = Some (values', inc')
           \<and> all_expr values' \<and> ranked \<rho> values' \<and> map fst values' = map fst values
           \<and> (\<forall>j. height \<rho> values' j \<le> height \<rho> values j)
           \<and> (\<forall>j. key_refs values j = {} \<longrightarrow> key_refs values' j = {})
           \<and> (inc \<longrightarrow> inc')
           \<and> (inc' \<longrightarrow> inc \<or> (\<exists>j \<in> set ks. height \<rho> values' j < height \<rho> values j))
           \<and> (\<not> inc' \<longrightarrow> (\<forall>j \<in> set ks. key_refs values' j = {}))"
  using assms
proof (induction ks arbitrary: "values" inc)
  case Nil
  then show ?case by simp
next
  case (Cons k ks)
  have hk: "has values k" using Cons.prems(3) by (simp add: has_keys)
  from collapse_one_step[OF Cons.prems(1,2) hk, of inc] obtain v1 where
    c: "collapse_one k (values, inc) = Some (v1, inc \<or> key_refs values k \<noteq> {})"
    and e1: "all_expr v1" and r1: "ranked \<rho> v1" and k1: "map fst v1 = map fst values"
    and le1: "\<And>j. height \<rho> v1 j \<le> height \<rho> values j"
    and lt1: "key_refs values k \<noteq> {} \<Longrightarrow> height \<rho> v1 k < height \<rho> values k"
    and em1: "\<And>j. key_refs values j = {} \<Longrightarrow> key_refs v1 j = {}"
    by blast
  have s1: "set ks \<subseteq> set (map fst v1)" using Cons.prems(3) k1 by simp
  from Cons.IH[OF e1 r1 s1, of "inc \<or> key_refs values k \<noteq> {}"] obtain v2 inc2 where
    f: "for_each collapse_one ks (v1, inc \<or> key_refs values k \<noteq> {}) = Some (v2, inc2)"
    and e2: "all_expr v2" and r2: "ranked \<rho> v2" and k2: "map fst v2 = map fst v1"
    and le2: "\<And>j. height \<rho> v2 j \<le> height \<rho> v1 j"
    and em2: "\<And>j. key_refs v1 j = {} \<Longrightarrow> key_refs v2 j = {}"
    and mono: "inc \<or> key_refs values k \<noteq> {} \<Longrightarrow> inc2"
    and lt2: "inc2 \<Longrightarrow> (inc \<or> key_refs values k \<noteq> {}) \<or> (\<exists>j \<in> set ks. height \<rho> v2 j < height \<rho> v1 j)"
    and z2: "\<not> inc2 \<Longrightarrow> (\<forall>j \<in> set ks. key_refs v2 j = {})"
    by blast
  have 1: "for_each collapse_one (k # ks) (values, inc) = Some (v2, inc2)"
    using c f by simp
  have 2: "height \<rho> v2 j \<le> height \<rho> values j" for j
    using le1[of j] le2[of j] by simp
  have 3: "key_refs v2 j = {}" if "key_refs values j = {}" for j
    using that em1 em2 by simp
  have 4: "inc \<or> (\<exists>j \<in> set (k # ks). height \<rho> v2 j < height \<rho> values j)" if inc2
  proof -
    from lt2[OF that] consider inc | "key_refs values k \<noteq> {}"
      | j where "j \<in> set ks" "height \<rho> v2 j < height \<rho> v1 j" by blast
    then show ?thesis
    proof cases
      case 1
      then show ?thesis by simp
    next
      case 2
      then have "height \<rho> v2 k < height \<rho> values k" using lt1 le2[of k] by simp
      then show ?thesis by auto
    next
      case 3
      then have "height \<rho> v2 j < height \<rho> values j" using le1[of j] by simp
      then show ?thesis using 3(1) by auto
    qed
  qed
  have 5: "\<forall>j \<in> set (k # ks). key_refs v2 j = {}" if "\<not> inc2"
  proof -
    from that mono have "key_refs values k = {}" by blast
    then have "key_refs v2 k = {}" using 3 by simp
    then show ?thesis using z2[OF that] by simp
  qed
  show ?case using 1 e2 r2 k1 k2 2 3 4 5 mono by auto
qed

lemma collapse_loop:
  assumes "all_expr values" "ranked \<rho> values"
  shows "\<exists>r. collapseValues values = Some r \<and> map fst r = map fst values \<and> all_expr r
           \<and> (\<forall>j. has r j \<longrightarrow> key_refs r j = {})"
  using assms
proof (induction "weight \<rho> values" arbitrary: "values" rule: less_induct)
  case less
  from collapse_pass[OF less.prems subset_refl, of False] obtain v1 inc1 where
    f: "for_each collapse_one (map fst values) (values, False) = Some (v1, inc1)"
    and e1: "all_expr v1" and r1: "ranked \<rho> v1" and k1: "map fst v1 = map fst values"
    and le1: "\<And>j. height \<rho> v1 j \<le> height \<rho> values j"
    and lt1: "inc1 \<Longrightarrow> \<exists>j \<in> set (map fst values). height \<rho> v1 j < height \<rho> values j"
    and z1: "\<not> inc1 \<Longrightarrow> (\<forall>j \<in> set (map fst values). key_refs v1 j = {})"
    by blast
  show ?case
  proof (cases inc1)
    case True
    have "weight \<rho> v1 < weight \<rho> values"
      unfolding weight_def k1
      by (rule sum_strict_mono_ex1) (use le1 lt1[OF True] in auto)
    from less.hyps[OF this e1 r1] obtain r where
      "collapseValues v1 = Some r" "map fst r = map fst v1" "all_expr r"
      "\<forall>j. has r j \<longrightarrow> key_refs r j = {}" by blast
    moreover have "collapseValues values = collapseValues v1"
      using f True by (subst collapseValues.simps) simp
    ultimately show ?thesis using k1 by auto
  next
    case False
    have "collapseValues values = Some v1"
      using f False by (subst collapseValues.simps) simp
    moreover have "\<forall>j. has v1 j \<longrightarrow> key_refs v1 j = {}"
      using z1[OF False] k1 by (auto simp: has_keys)
    ultimately show ?thesis using e1 k1 by auto
  qed
qed

lemma finite_ref_graph: "finite (ref_graph values)"
proof (rule finite_subset)
  show "ref_graph values \<subseteq> set (map fst values) \<times> set (map fst values)"
    using has_keys by (auto simp: ref_graph_def)
qed simp

lemma acyclic_ranked:
  assumes "acyclic (ref_graph values)"
  shows "ranked (\<lambda>k. card ((ref_graph values)\<^sup>+ `` {k})) values"
  unfolding ranked_def
proof (intro allI impI)
  fix k x assume "has values k" "x \<in> key_refs values k"
  then have g: "(k, x) \<in> ref_graph values" by (auto simp: ref_graph_def key_refs_def)
  have fin: "finite ((ref_graph values)\<^sup>+ `` {k})"
    using finite_ref_graph[of "values"] by simp
  have "(ref_graph values)\<^sup>+ `` {x} \<subseteq> (ref_graph values)\<^sup>+ `` {k}"
    using g by (auto intro: trancl_into_trancl2)
  moreover have "x \<in> (ref_graph values)\<^sup>+ `` {k}" using g by auto
  moreover have "x \<notin> (ref_graph values)\<^sup>+ `` {x}" using assms by (auto simp: acyclic_def)
  ultimately have "(ref_graph values)\<^sup>+ `` {x} \<subset> (ref_graph values)\<^sup>+ `` {k}" by blast
  then show "card ((ref_graph values)\<^sup>+ `` {x}) < card ((ref_graph values)\<^sup>+ `` {k})"
    using fin by (rule psubset_card_mono[rotated])
qed

lemma self_reference:
  "collapse_callback values k inc (Arr [Str ''name'', Str k]) ''name'' = Some (inc, Undef)"
  by (simp add: collapse_callback_def split: option.splits)

text \<open>
  \<^bold>\<open>Claim C7\<close>. When the values are expressions and the graph of references among the
  keys is acyclic, \<^verbatim>\<open>collapseValues\<close> returns (the loop terminates), the table it
  returns has the same keys, and no value of that table refers to a key. During the walk of
  the value of \<^verbatim>\<open>k\<close>, at any table, the callback leaves a \<^verbatim>\<open>name\<close> node that refers
  to \<^verbatim>\<open>k\<close> in place and does not ask for another pass.
\<close>

theorem collapse_fixed_point:
  assumes "all_expr values" and "acyclic (ref_graph values)"
  shows "(\<exists>r. collapseValues values = Some r \<and> map fst r = map fst values \<and> ref_graph r = {})
         \<and> (\<forall>vs k inc. collapse_callback vs k inc (Arr [Str ''name'', Str k]) ''name'' = Some (inc, Undef))"
proof -
  from collapse_loop[OF assms(1) acyclic_ranked[OF assms(2)]] obtain r where
    r: "collapseValues values = Some r" "map fst r = map fst values"
       "\<forall>j. has r j \<longrightarrow> key_refs r j = {}" by blast
  have "ref_graph r = {}" using r(3) by (auto simp: ref_graph_def key_refs_def)
  then show ?thesis using r self_reference by blast
qed

definition collapse_sample :: "node table" where
  "collapse_sample =
     [(''a'', Arr [Str ''binary'', Str ''+'', Arr [Str ''name'', Str ''b''],
                   Arr [Str ''name'', Str ''x'']]),
      (''b'', Arr [Str ''binary'', Str ''*'', Arr [Str ''name'', Str ''c''],
                   Arr [Str ''num'', Num 2]]),
      (''c'', Arr [Str ''name'', Str ''y''])]"

definition collapse_sample_rank :: "string \<Rightarrow> nat" where
  "collapse_sample_rank k = (if k = ''a'' then 2 else if k = ''b'' then 1 else 0)"

theorem collapse_fixed_point_witness:
  "all_expr collapse_sample \<and> acyclic (ref_graph collapse_sample)
   \<and> collapseValues collapse_sample =
       Some [(''a'', Arr [Str ''binary'', Str ''+'',
                          Arr [Str ''binary'', Str ''*'', Arr [Str ''name'', Str ''y''],
                               Arr [Str ''num'', Num 2]],
                          Arr [Str ''name'', Str ''x'']]),
             (''b'', Arr [Str ''binary'', Str ''*'', Arr [Str ''name'', Str ''y''],
                          Arr [Str ''num'', Num 2]]),
             (''c'', Arr [Str ''name'', Str ''y''])]
   \<and> ref_graph [(''a'', Arr [Str ''binary'', Str ''+'',
                          Arr [Str ''binary'', Str ''*'', Arr [Str ''name'', Str ''y''],
                               Arr [Str ''num'', Num 2]],
                          Arr [Str ''name'', Str ''x'']]),
             (''b'', Arr [Str ''binary'', Str ''*'', Arr [Str ''name'', Str ''y''],
                          Arr [Str ''num'', Num 2]]),
             (''c'', Arr [Str ''name'', Str ''y''])] = {}"
proof -
  have 1: "all_expr collapse_sample"
    by (auto simp: all_expr_def collapse_sample_def split: if_splits)
  have 2: "acyclic (ref_graph collapse_sample)"
    by (rule acyclicI_order[where f = collapse_sample_rank])
       (auto simp: ref_graph_def has_def value_of_def collapse_sample_def collapse_sample_rank_def
             split: if_splits)
  have 3: "collapseValues collapse_sample =
       Some [(''a'', Arr [Str ''binary'', Str ''+'',
                          Arr [Str ''binary'', Str ''*'', Arr [Str ''name'', Str ''y''],
                               Arr [Str ''num'', Num 2]],
                          Arr [Str ''name'', Str ''x'']]),
             (''b'', Arr [Str ''binary'', Str ''*'', Arr [Str ''name'', Str ''y''],
                          Arr [Str ''num'', Num 2]]),
             (''c'', Arr [Str ''name'', Str ''y''])]"
    by code_simp
  from collapse_fixed_point[OF 1 2] 3 show ?thesis using 1 2 by auto
qed

end
